theory Spec2Isabelle
  imports Complex_Main "HOL-Library.Char_ord" "HOL-Library.List_Lexorder"
begin

section \<open>JavaScript values and string helpers\<close>

text \<open>
  The transfer engine of the Vault manager lives in \<^verbatim>\<open>src/js/api.js\<close> (the object
  \<^verbatim>\<open>VeevaAPI\<close>) and the column mapper in \<^verbatim>\<open>src/js/app.js\<close> (\<^verbatim>\<open>autoMapColumns\<close> and
  \<^verbatim>\<open>AppState\<close>). Strings are modelled as \<^typ>\<open>string\<close>; field and column names are
  taken to be ASCII, so that a character is one code unit. Numbers that count records,
  batches and offsets are integers (\<^typ>\<open>int\<close>); the user interface produces them with
  \<^verbatim>\<open>parseInt\<close>.
\<close>

text \<open>
  \<^verbatim>\<open>String.prototype.replace(pattern, replacement)\<close> with a string pattern: only the
  first occurrence of the pattern is replaced. (The replacements used in the program,
  the empty string, a space and an underscore, contain no \<^verbatim>\<open>$\<close> pattern.)
\<close>

fun js_replace :: "string \<Rightarrow> string \<Rightarrow> string \<Rightarrow> string" where
  "js_replace pat rep [] = (if pat = [] then rep else [])"
| "js_replace pat rep (c # cs) =
     (if take (length pat) (c # cs) = pat then rep @ drop (length pat) (c # cs)
      else c # js_replace pat rep cs)"

text \<open>\<^verbatim>\<open>String.prototype.toLowerCase\<close> on ASCII text.\<close>

definition lower_char :: "char \<Rightarrow> char" where
  "lower_char c =
     (case map_of (zip ''ABCDEFGHIJKLMNOPQRSTUVWXYZ'' ''abcdefghijklmnopqrstuvwxyz'') c of
        Some l \<Rightarrow> l
      | None \<Rightarrow> c)"

definition toLowerCase :: "string \<Rightarrow> string" where
  "toLowerCase s = map lower_char s"

text \<open>Conversion of a non-negative number to its decimal text, as a template literal does.\<close>

definition digit_char :: "nat \<Rightarrow> char" where
  "digit_char d = ''0123456789'' ! (d mod 10)"

fun show_nat :: "nat \<Rightarrow> string" where
  "show_nat n = (if n < 10 then [digit_char n] else show_nat (n div 10) @ [digit_char n])"

declare show_nat.simps [simp del]

text \<open>
  A JSON value as \<^verbatim>\<open>response.json()\<close> delivers it. A record of a page is a JSON object:
  its own keys in order, each with a value.
\<close>

datatype jsvalue =
    JNull
  | JBool bool
  | JNumber int
  | JString string
  | JArray "jsvalue list"
  | JObject "(string \<times> jsvalue) list"

type_synonym jsrecord = "(string \<times> jsvalue) list"

section \<open>Cleaning of pulled records\<close>

text \<open>
  \<^verbatim>\<open>record[key] = record[key].replace('[', '').replace(']', '')\<close>, applied to every own
  key whose value has \<^verbatim>\<open>typeof\<close> equal to \<^verbatim>\<open>'string'\<close> (api.js, lines 204-210 and
  248-254).
\<close>

definition cleanString :: "string \<Rightarrow> string" where
  "cleanString s = js_replace '']'' [] (js_replace ''['' [] s)"

fun cleanValue :: "jsvalue \<Rightarrow> jsvalue" where
  "cleanValue (JString s) = JString (cleanString s)"
| "cleanValue v = v"

definition cleanRecord :: "jsrecord \<Rightarrow> jsrecord" where
  "cleanRecord r = map (\<lambda>(k, v). (k, cleanValue v)) r"

section \<open>Session acquisition\<close>

text \<open>
  \<^verbatim>\<open>VeevaAPI\<close> keeps the endpoint and the cached session id (\<^verbatim>\<open>null\<close> is \<^const>\<open>None\<close>).
  The user name, the password and the SSL flag only travel to the authentication
  request and are left out. A thrown \<^verbatim>\<open>Error\<close> is a value carrying its message.
\<close>

record veeva_api =
  apiUrl :: string
  sessionId :: "string option"

datatype js_error = Error string

text \<open>
  What the authentication exchange does: the request or the reading of its body throws
  (with a message), or a response arrives with its \<^verbatim>\<open>ok\<close> flag, its status, the
  \<^verbatim>\<open>message\<close> and the \<^verbatim>\<open>sessionId\<close> of its JSON body (each possibly absent).
\<close>

datatype auth_reply =
    AuthThrows string
  | AuthResponse bool nat "string option" "string option"

text \<open>A string is truthy when it is present and not empty.\<close>

fun truthy_string :: "string option \<Rightarrow> bool" where
  "truthy_string None = False"
| "truthy_string (Some s) = (s \<noteq> [])"

text \<open>
  \<^verbatim>\<open>getSessionId\<close> (api.js, lines 44-77): a cached id is returned as it is; otherwise
  one exchange is made, a response that is not \<^verbatim>\<open>ok\<close> throws, and the id of the body
  is cached and returned. The result is the outcome and the object afterwards.
\<close>

definition getSessionId ::
  "veeva_api \<Rightarrow> auth_reply \<Rightarrow> (js_error + string option) \<times> veeva_api" where
  "getSessionId api auth =
     (if truthy_string (sessionId api) then (Inr (sessionId api), api)
      else case auth of
        AuthThrows msg \<Rightarrow> (Inl (Error msg), api)
      | AuthResponse ok code msg sid \<Rightarrow>
          if \<not> ok then
            (Inl (Error (''Authentication failed: '' @ show_nat code @ '' - '' @
               (case msg of
                  None \<Rightarrow> ''No details available''
                | Some m \<Rightarrow> if m = [] then ''No details available'' else m))), api)
          else (Inr sid, api\<lparr>sessionId := sid\<rparr>))"

text \<open>
  \<^verbatim>\<open>getHeaders\<close>: the only header that varies is \<^verbatim>\<open>Authorization\<close>; an absent id
  is rendered by the template literal as \<^verbatim>\<open>undefined\<close>.
\<close>

definition getHeaders :: "string option \<Rightarrow> string" where
  "getHeaders sid = ''Bearer '' @ (case sid of None \<Rightarrow> ''undefined'' | Some s \<Rightarrow> s)"

section \<open>Pulling pages\<close>

text \<open>\<^verbatim>\<open>Array.prototype.join\<close> on strings.\<close>

fun join :: "string \<Rightarrow> string list \<Rightarrow> string" where
  "join sep [] = []"
| "join sep [x] = x"
| "join sep (x # y # ys) = x @ sep @ join sep (y # ys)"

text \<open>
  A page request is the \<^verbatim>\<open>GET\<close> of \<^verbatim>\<open>pullData\<close>: the part of the URL that stays the
  same (endpoint, object and field list), the header, and the \<^verbatim>\<open>limit\<close> and
  \<^verbatim>\<open>offset\<close> parameters. The remote service is the environment: it answers the
  \<open>k\<close>-th request of a call. The request or the reading of its body throws, or a
  response arrives with its \<^verbatim>\<open>ok\<close> flag, its status and the \<^verbatim>\<open>data\<close> array of its body
  (\<^const>\<open>None\<close> when the body has none); the elements of the array are JSON objects.
\<close>

record page_request =
  req_target :: string
  req_authorization :: string
  req_limit :: int
  req_offset :: int

datatype page_reply =
    PageThrows string
  | PageResponse bool nat "jsrecord list option"

type_synonym page_server = "nat \<Rightarrow> page_request \<Rightarrow> page_reply"

text \<open>
  The variables of the loop (\<^verbatim>\<open>offset\<close>, \<^verbatim>\<open>allData\<close>, \<^verbatim>\<open>moreData\<close>) together with what
  the call has done so far: the requests it has sent and the arguments of its calls of
  the progress callback. Messages written to the logger are not modelled.
\<close>

record pull_state =
  offset :: int
  allData :: "jsrecord list"
  moreData :: bool
  requests :: "page_request list"
  progress :: "nat list"

definition page_failed :: "page_reply \<Rightarrow> bool" where
  "page_failed r = (case r of PageThrows _ \<Rightarrow> True | PageResponse ok _ _ \<Rightarrow> \<not> ok)"

text \<open>
  What both the first attempt (lines 197-219) and the retry (lines 241-265) do with the
  body of a successful response: an absent or empty array ends the pagination, any other
  is cleaned, appended, and moves the offset by the size that was requested.
\<close>

definition ingest :: "bool \<Rightarrow> int \<Rightarrow> jsrecord list option \<Rightarrow> pull_state \<Rightarrow> pull_state" where
  "ingest cb used answer st =
     (case answer of
        None \<Rightarrow> st\<lparr>moreData := False\<rparr>
      | Some records \<Rightarrow>
          if records = [] then st\<lparr>moreData := False\<rparr>
          else
            let all = allData st @ map cleanRecord records
            in st\<lparr>allData := all, offset := offset st + used,
                 progress := (if cb then progress st @ [length all] else progress st)\<rparr>)"

definition send :: "page_server \<Rightarrow> page_request \<Rightarrow> pull_state \<Rightarrow> page_reply \<times> pull_state" where
  "send srv req st = (srv (length (requests st)) req, st\<lparr>requests := requests st @ [req]\<rparr>)"

definition page_request_at :: "string \<Rightarrow> string \<Rightarrow> int \<Rightarrow> int \<Rightarrow> page_request" where
  "page_request_at target auth requested off =
     \<lparr>req_target = target, req_authorization = auth, req_limit = requested, req_offset = off\<rparr>"

text \<open>
  For the statements below: the records the service delivers in one turn of the loop,
  with the first attempt or, after a failure, with the retry.
\<close>

definition page_records :: "page_reply \<Rightarrow> jsrecord list" where
  "page_records r = (case r of PageResponse True _ (Some records) \<Rightarrow> records | _ \<Rightarrow> [])"

definition delivered :: "page_server \<Rightarrow> string \<Rightarrow> string \<Rightarrow> int \<Rightarrow> pull_state \<Rightarrow> jsrecord list" where
  "delivered srv target auth batchSize st =
     (let k = length (requests st);
          first = srv k (page_request_at target auth batchSize (offset st))
      in if page_failed first
         then (if batchSize div 2 \<ge> 10
               then page_records (srv (k + 1) (page_request_at target auth (batchSize div 2) (offset st)))
               else [])
         else page_records first)"

text \<open>
  One turn of the \<^verbatim>\<open>while (moreData)\<close> loop (lines 183-276). \<^verbatim>\<open>Math.floor(batchSize / 2)\<close>
  is \<^term>\<open>batchSize div 2\<close> on integers.
\<close>

definition pull_step ::
  "page_server \<Rightarrow> string \<Rightarrow> string \<Rightarrow> int \<Rightarrow> bool \<Rightarrow> pull_state \<Rightarrow> pull_state" where
  "pull_step srv target auth batchSize cb st =
     (case send srv (page_request_at target auth batchSize (offset st)) st of
        (PageResponse True code answer, st1) \<Rightarrow> ingest cb batchSize answer st1
      | (_, st1) \<Rightarrow>
          let smallerBatchSize = batchSize div 2 in
          if smallerBatchSize \<ge> 10 then
            (case send srv (page_request_at target auth smallerBatchSize (offset st1)) st1 of
               (PageResponse True code answer, st2) \<Rightarrow> ingest cb smallerBatchSize answer st2
             | (_, st2) \<Rightarrow> st2\<lparr>offset := offset st2 + smallerBatchSize\<rparr>)
          else st1\<lparr>offset := offset st1 + batchSize\<rparr>)"

text \<open>
  The loop itself. Nothing bounds the number of pages a service may deliver, so the loop
  is a partial function: \<^const>\<open>None\<close> is a run that never ends.
\<close>

partial_function (option) pull_loop ::
  "page_server \<Rightarrow> string \<Rightarrow> string \<Rightarrow> int \<Rightarrow> bool \<Rightarrow> pull_state \<Rightarrow> pull_state option" where
  [code]: "pull_loop srv target auth batchSize cb st =
     (if moreData st then pull_loop srv target auth batchSize cb (pull_step srv target auth batchSize cb st)
      else Some st)"

definition pull_target :: "veeva_api \<Rightarrow> string \<Rightarrow> string list \<Rightarrow> string" where
  "pull_target api objectName fieldNames =
     apiUrl api @ ''/api/v24.1/vobjects/'' @ objectName @ ''?fields='' @ join '','' fieldNames"

text \<open>
  \<^verbatim>\<open>pullData\<close> (lines 173-283). A failure to obtain the session is thrown to the caller;
  otherwise the array returned is \<^const>\<open>allData\<close> of the final state.
\<close>

definition pullData ::
  "veeva_api \<Rightarrow> auth_reply \<Rightarrow> page_server \<Rightarrow> string \<Rightarrow> string list \<Rightarrow> int \<Rightarrow> bool
     \<Rightarrow> (js_error + pull_state) option" where
  "pullData api auth srv objectName fieldNames batchSize cb =
     (case fst (getSessionId api auth) of
        Inl e \<Rightarrow> Some (Inl e)
      | Inr sid \<Rightarrow>
          map_option Inr
            (pull_loop srv (pull_target api objectName fieldNames) (getHeaders sid) batchSize cb
               \<lparr>offset = 0, allData = [], moreData = True, requests = [], progress = []\<rparr>))"

section \<open>Pushing batches\<close>

text \<open>
  Line 300: \<^verbatim>\<open>operation === 'merge' ? Math.min(batchSize, 10) : Math.min(batchSize, 500)\<close>.
  The operation is the string the caller passes.
\<close>

definition actualBatchSize :: "string \<Rightarrow> int \<Rightarrow> int" where
  "actualBatchSize operation batchSize =
     (if operation = ''merge'' then min batchSize 10 else min batchSize 500)"

text \<open>
  \<^verbatim>\<open>Array.prototype.slice(start, end)\<close> on integer arguments: a negative index counts
  from the end, and both are clamped to the array.
\<close>

definition js_slice :: "'a list \<Rightarrow> int \<Rightarrow> int \<Rightarrow> 'a list" where
  "js_slice xs start fin =
     (let len = int (length xs);
          k = (if start < 0 then max (len + start) 0 else min start len);
          final = (if fin < 0 then max (len + fin) 0 else min fin len)
      in take (nat (final - k)) (drop (nat k) xs))"

text \<open>
  The loop that prepares the batches (lines 303-306), with \<open>i\<close> its counter and
  \<open>batches\<close> the array built so far. With a step that is not positive and a non-empty
  array the condition never becomes false: the loop is a partial function, and
  \<^const>\<open>None\<close> is a run that never ends.
\<close>

partial_function (option) prepare_batches ::
  "'a list \<Rightarrow> int \<Rightarrow> int \<Rightarrow> 'a list list \<Rightarrow> 'a list list option" where
  [code]: "prepare_batches data actualSize i batches =
     (if i < int (length data)
      then prepare_batches data actualSize (i + actualSize)
             (batches @ [js_slice data i (i + actualSize)])
      else Some batches)"

text \<open>
  A write request: verb, URL, header and the batch that \<^verbatim>\<open>JSON.stringify\<close> turns into
  the body. The service answers the request of the batch with index \<open>i\<close>: the request
  or the reading of the response text throws (message and stack trace of the error), or
  a response arrives with its \<^verbatim>\<open>ok\<close> flag, its status and its text.
\<close>

record push_request =
  http_method :: string
  url :: string
  authorization :: string
  body :: "jsrecord list"

datatype push_reply =
    PushThrows string string
  | PushResponse bool nat string

type_synonym push_server = "nat \<Rightarrow> push_request \<Rightarrow> push_reply"

text \<open>The \<^verbatim>\<open>status\<close> of a log entry is the status of the response or the text \<^verbatim>\<open>'Error'\<close>.\<close>

datatype log_status = StatusCode nat | StatusError

record batch_log =
  batch :: nat
  status :: log_status
  message :: string
  response :: string

record push_results =
  total :: nat
  success :: nat
  failures :: nat
  logs :: "batch_log list"

text \<open>
  What a run of the second loop has done: the \<^verbatim>\<open>results\<close> object, the requests sent and
  the arguments of the calls of the progress callback, each in order.
\<close>

record push_run =
  results :: push_results
  sent :: "push_request list"
  calls :: "(nat \<times> nat) list"

text \<open>The \<^verbatim>\<open>switch\<close> of lines 321-339.\<close>

definition write_request :: "veeva_api \<Rightarrow> string \<Rightarrow> string \<Rightarrow> string \<Rightarrow> jsrecord list \<Rightarrow> push_request" where
  "write_request api auth objectName operation b =
     (let base = apiUrl api @ ''/api/v24.1/vobjects/'' @ objectName in
      \<lparr>http_method =
         (if operation = ''update'' then ''PUT''
          else if operation = ''delete'' then ''DELETE''
          else ''POST''),
       url = (if operation = ''merge'' then base @ ''/actions/merge'' else base),
       authorization = auth,
       body = b\<rparr>)"

text \<open>The entry a batch leaves in the log (lines 351-376), from its index and its reply.\<close>

definition batch_outcome :: "nat \<Rightarrow> push_reply \<Rightarrow> batch_log" where
  "batch_outcome i reply =
     (case reply of
        PushResponse ok code txt \<Rightarrow>
          if ok then
            \<lparr>batch = i + 1, status = StatusCode code,
             message = ''Batch '' @ show_nat (i + 1) @ '' processed successfully'',
             response = txt\<rparr>
          else
            \<lparr>batch = i + 1, status = StatusCode code,
             message = ''Batch '' @ show_nat (i + 1) @ '' failed: '' @ show_nat code,
             response = txt\<rparr>
      | PushThrows msg stack \<Rightarrow>
          \<lparr>batch = i + 1, status = StatusError,
           message = ''Batch '' @ show_nat (i + 1) @ '' failed: '' @ msg,
           response = stack\<rparr>)"

definition batch_succeeded :: "push_reply \<Rightarrow> bool" where
  "batch_succeeded reply = (case reply of PushResponse ok _ _ \<Rightarrow> ok | PushThrows _ _ \<Rightarrow> False)"

text \<open>
  The body of the second loop (lines 317-381) for the batch with index \<open>i\<close>; \<open>n\<close> is
  \<^verbatim>\<open>batches.length\<close>.
\<close>

definition process_batch ::
  "push_server \<Rightarrow> (jsrecord list \<Rightarrow> push_request) \<Rightarrow> bool \<Rightarrow> nat \<Rightarrow> nat \<Rightarrow> jsrecord list
     \<Rightarrow> push_run \<Rightarrow> push_run" where
  "process_batch srv mk cb n i b run =
     (let req = mk b;
          reply = srv i req;
          r = results run;
          r' = (if batch_succeeded reply
                then r\<lparr>success := success r + 1, logs := logs r @ [batch_outcome i reply]\<rparr>
                else r\<lparr>failures := failures r + 1, logs := logs r @ [batch_outcome i reply]\<rparr>)
      in \<lparr>results = r', sent = sent run @ [req],
          calls = (if cb then calls run @ [(i + 1, n)] else calls run)\<rparr>)"

text \<open>The second loop (line 316): the batches from index \<open>i\<close> on, in order.\<close>

fun process_batches ::
  "push_server \<Rightarrow> (jsrecord list \<Rightarrow> push_request) \<Rightarrow> bool \<Rightarrow> nat \<Rightarrow> nat \<Rightarrow> jsrecord list list
     \<Rightarrow> push_run \<Rightarrow> push_run" where
  "process_batches srv mk cb n i [] run = run"
| "process_batches srv mk cb n i (b # bs) run =
     process_batches srv mk cb n (i + 1) bs (process_batch srv mk cb n i b run)"

text \<open>
  \<^verbatim>\<open>pushData\<close> (lines 294-389). A failure to obtain the session is thrown to the caller
  before anything is sent.
\<close>

definition pushData ::
  "veeva_api \<Rightarrow> auth_reply \<Rightarrow> push_server \<Rightarrow> string \<Rightarrow> jsrecord list \<Rightarrow> string \<Rightarrow> int \<Rightarrow> bool
     \<Rightarrow> (js_error + push_run) option" where
  "pushData api auth srv objectName data operation batchSize cb =
     (case fst (getSessionId api auth) of
        Inl e \<Rightarrow> Some (Inl e)
      | Inr sid \<Rightarrow>
          (case prepare_batches data (actualBatchSize operation batchSize) 0 [] of
             None \<Rightarrow> None
           | Some batches \<Rightarrow>
               Some (Inr (process_batches srv
                 (write_request api (getHeaders sid) objectName operation) cb (length batches) 0 batches
                 \<lparr>results = \<lparr>total = length batches, success = 0, failures = 0, logs = []\<rparr>,
                  sent = [], calls = []\<rparr>))))"

section \<open>Exporting the metadata\<close>

text \<open>
  The listing of the objects answers with the names of the objects; the request of an
  object's fields answers with the names of its fields, \<^const>\<open>None\<close> when the body has
  no \<^verbatim>\<open>object.fields\<close>. Either may throw instead. The service answers the field request
  of the object with index \<open>i\<close> at the URL given.
\<close>

datatype objects_reply =
    ObjectsThrows string
  | ObjectsResponse bool nat "string list"

datatype fields_reply =
    FieldsThrows string
  | FieldsResponse bool nat "string list option"

type_synonym fields_server = "nat \<Rightarrow> string \<Rightarrow> fields_reply"

text \<open>A row of the result: \<^verbatim>\<open>{'Object Name': ..., 'Field Name': ...}\<close>.\<close>

record object_field =
  Object_Name :: string
  Field_Name :: string

record export_run =
  pairs :: "object_field list"
  asked :: "string list"
  reported :: "(nat \<times> nat) list"

text \<open>
  The rows an object contributes (lines 433-457): those of its fields, sorted, when the
  response is \<^verbatim>\<open>ok\<close> and carries fields, none otherwise. \<^verbatim>\<open>Array.prototype.sort\<close>
  without a comparison function orders strings by their code units, which is the
  lexicographic order of \<^typ>\<open>string\<close>.
\<close>

definition object_rows :: "string \<Rightarrow> fields_reply \<Rightarrow> object_field list" where
  "object_rows objectName reply =
     (case reply of
        FieldsResponse True code (Some names) \<Rightarrow>
          map (\<lambda>fieldName. \<lparr>Object_Name = objectName, Field_Name = fieldName\<rparr>) (sort names)
      | _ \<Rightarrow> [])"

definition fields_url :: "veeva_api \<Rightarrow> string \<Rightarrow> string" where
  "fields_url api objectName = apiUrl api @ ''/api/v24.1/metadata/vobjects/'' @ objectName"

text \<open>The loop over the objects (lines 421-463), from index \<open>i\<close> on.\<close>

fun collect_objects ::
  "fields_server \<Rightarrow> veeva_api \<Rightarrow> bool \<Rightarrow> nat \<Rightarrow> nat \<Rightarrow> string list \<Rightarrow> export_run \<Rightarrow> export_run" where
  "collect_objects srv api cb totalObjects i [] run = run"
| "collect_objects srv api cb totalObjects i (objectName # rest) run =
     collect_objects srv api cb totalObjects (i + 1) rest
       \<lparr>pairs = pairs run @ object_rows objectName (srv i (fields_url api objectName)),
        asked = asked run @ [fields_url api objectName],
        reported = (if cb then reported run @ [(i + 1, totalObjects)] else reported run)\<rparr>"

text \<open>
  \<^verbatim>\<open>exportMetadata\<close> (lines 396-470): a failure of the session or of the listing of the
  objects is thrown to the caller.
\<close>

definition exportMetadata ::
  "veeva_api \<Rightarrow> auth_reply \<Rightarrow> objects_reply \<Rightarrow> fields_server \<Rightarrow> bool \<Rightarrow> js_error + export_run" where
  "exportMetadata api auth listing srv cb =
     (case fst (getSessionId api auth) of
        Inl e \<Rightarrow> Inl e
      | Inr sid \<Rightarrow>
          (case listing of
             ObjectsThrows msg \<Rightarrow> Inl (Error msg)
           | ObjectsResponse ok code names \<Rightarrow>
               if \<not> ok then Inl (Error (''Failed to get objects: '' @ show_nat code))
               else
                 let objects = sort names in
                 Inr (collect_objects srv api cb (length objects) 0 objects
                        \<lparr>pairs = [], asked = [], reported = []\<rparr>)))"

section \<open>Mapping columns to fields\<close>

text \<open>
  \<^verbatim>\<open>AppState.columnMappings\<close> and the lookup table \<^verbatim>\<open>vaultFieldsLower\<close> of
  \<^verbatim>\<open>autoMapColumns\<close> are plain objects created by \<^verbatim>\<open>{}\<close>. Such an object has its own
  properties and inherits those of \<^verbatim>\<open>Object.prototype\<close>. A value found under a key is a
  field name (a string) or a member inherited from the prototype.
\<close>

datatype mapval = FieldName string | Inherited string

type_synonym js_object = "string \<rightharpoonup> mapval"

definition object_prototype_keys :: "string list" where
  "object_prototype_keys =
     [''constructor'', ''__proto__'', ''hasOwnProperty'', ''isPrototypeOf'',
      ''propertyIsEnumerable'', ''toLocaleString'', ''toString'', ''valueOf'',
      ''__defineGetter__'', ''__defineSetter__'', ''__lookupGetter__'', ''__lookupSetter__'']"

text \<open>\<^verbatim>\<open>obj[key]\<close>: an own property first, then the prototype; \<^const>\<open>None\<close> is \<^verbatim>\<open>undefined\<close>.\<close>

definition js_get :: "js_object \<Rightarrow> string \<Rightarrow> mapval option" where
  "js_get obj k =
     (case obj k of
        Some v \<Rightarrow> Some v
      | None \<Rightarrow> if k \<in> set object_prototype_keys then Some (Inherited k) else None)"

text \<open>
  \<^verbatim>\<open>obj[key] = value\<close>. The key \<^verbatim>\<open>__proto__\<close> is an accessor of the prototype: assigning
  to it creates no own property. (It replaces the prototype when the value is an object;
  the values this program assigns under that key are strings, which are ignored, and
  \<^verbatim>\<open>Object.prototype\<close> itself, which changes nothing.)
\<close>

definition js_set :: "js_object \<Rightarrow> string \<Rightarrow> mapval \<Rightarrow> js_object" where
  "js_set obj k v = (if k = ''__proto__'' then obj else obj(k \<mapsto> v))"

text \<open>Truthiness of a looked-up value: an empty string and \<^verbatim>\<open>undefined\<close> are falsy.\<close>

fun truthy :: "mapval option \<Rightarrow> bool" where
  "truthy None = False"
| "truthy (Some (FieldName s)) = (s \<noteq> [])"
| "truthy (Some (Inherited k)) = True"

text \<open>
  The part of \<^verbatim>\<open>AppState\<close> the mapper reads and writes: the loaded file (its columns and
  rows; \<^const>\<open>None\<close> is \<^verbatim>\<open>null\<close>), the fields of the selected object and the mappings.
\<close>

record file_data =
  columns :: "string list"
  rows :: "jsrecord list"

record app_state =
  inputFileData :: "file_data option"
  availableFields :: "string list"
  columnMappings :: js_object

definition setColumnMapping :: "app_state \<Rightarrow> string \<Rightarrow> mapval \<Rightarrow> app_state" where
  "setColumnMapping st fileColumn vaultField =
     st\<lparr>columnMappings := js_set (columnMappings st) fileColumn vaultField\<rparr>"

definition clearColumnMappings :: "app_state \<Rightarrow> app_state" where
  "clearColumnMappings st = st\<lparr>columnMappings := Map.empty\<rparr>"

text \<open>Lines 524-527: the lookup from the lower-cased name of a field to the field.\<close>

definition vaultFieldsLower :: "string list \<Rightarrow> js_object" where
  "vaultFieldsLower vaultFields =
     foldl (\<lambda>obj field. js_set obj (toLowerCase field) (FieldName field)) Map.empty vaultFields"

text \<open>The value under a key when it is truthy, as the conditions of lines 536-543 test it.\<close>

definition lookup_truthy :: "js_object \<Rightarrow> string \<Rightarrow> mapval option" where
  "lookup_truthy obj k = (if truthy (js_get obj k) then js_get obj k else None)"

text \<open>
  Lines 531-545, the body of \<^verbatim>\<open>columns.forEach\<close>: the four attempts in order, the first
  that succeeds sets the mapping of the column.
\<close>

definition matchColumn :: "string list \<Rightarrow> js_object \<Rightarrow> app_state \<Rightarrow> string \<Rightarrow> app_state" where
  "matchColumn vaultFields lowerTable st column =
     (if column \<in> set vaultFields then setColumnMapping st column (FieldName column)
      else case lookup_truthy lowerTable (toLowerCase column) of
        Some v \<Rightarrow> setColumnMapping st column v
      | None \<Rightarrow>
      (case lookup_truthy lowerTable (toLowerCase (js_replace ''_'' '' '' column)) of
        Some v \<Rightarrow> setColumnMapping st column v
      | None \<Rightarrow>
      (case lookup_truthy lowerTable (toLowerCase (js_replace '' '' ''_'' column)) of
        Some v \<Rightarrow> setColumnMapping st column v
      | None \<Rightarrow> st)))"

text \<open>
  \<^verbatim>\<open>autoMapColumns\<close> (lines 511-552): without a loaded file or without fields it shows a
  notification and returns; otherwise it clears the mappings and matches every column.
  The refresh of the mapping table and the log line are not modelled.
\<close>

definition autoMapColumns :: "app_state \<Rightarrow> app_state" where
  "autoMapColumns st =
     (case inputFileData st of
        None \<Rightarrow> st
      | Some loaded \<Rightarrow>
          if availableFields st = [] then st
          else foldl (matchColumn (availableFields st) (vaultFieldsLower (availableFields st)))
                 (clearColumnMappings st) (columns loaded))"

text \<open>
  For the statements below: the value the four attempts of \<^const>\<open>matchColumn\<close> find for
  a column, \<^const>\<open>None\<close> when none of them succeeds.
\<close>

definition matchValue :: "string list \<Rightarrow> js_object \<Rightarrow> string \<Rightarrow> mapval option" where
  "matchValue vaultFields lowerTable column =
     (if column \<in> set vaultFields then Some (FieldName column)
      else case lookup_truthy lowerTable (toLowerCase column) of
        Some v \<Rightarrow> Some v
      | None \<Rightarrow>
      (case lookup_truthy lowerTable (toLowerCase (js_replace ''_'' '' '' column)) of
        Some v \<Rightarrow> Some v
      | None \<Rightarrow> lookup_truthy lowerTable (toLowerCase (js_replace '' '' ''_'' column))))"

text \<open>
  The mapper as the specification words it, to compare the code with: a column is matched
  against the names of the remote fields (1) exactly, (2) without regard to case, (3)
  without regard to case after its first underscore became a space, (4) without regard
  to case after its first space became an underscore; the first hit is taken, and
  without a hit the column has no mapping. Of several fields that differ only in case
  the last one is taken.
\<close>

definition spec_find :: "string list \<Rightarrow> string \<Rightarrow> string option" where
  "spec_find remoteFields k = List.find (\<lambda>f. toLowerCase f = k) (rev remoteFields)"

definition spec_autoMap :: "string list \<Rightarrow> string \<Rightarrow> string option" where
  "spec_autoMap remoteFields column =
     (if column \<in> set remoteFields then Some column
      else case spec_find remoteFields (toLowerCase column) of
        Some f \<Rightarrow> Some f
      | None \<Rightarrow>
      (case spec_find remoteFields (toLowerCase (js_replace ''_'' '' '' column)) of
        Some f \<Rightarrow> Some f
      | None \<Rightarrow> spec_find remoteFields (toLowerCase (js_replace '' '' ''_'' column))))"

section \<open>Examples of environments\<close>

text \<open>Concrete services and states on which the statements below are exercised.\<close>

definition example_api :: veeva_api where
  "example_api = \<lparr>apiUrl = ''https://vault.example'', sessionId = Some ''S1''\<rparr>"

definition example_auth :: auth_reply where
  "example_auth = AuthResponse True 200 None (Some ''S2'')"

text \<open>
  A service that delivers one page, fails the second request, delivers a page to the
  retry at half the size, and then an empty page.
\<close>

definition example_pages :: page_server where
  "example_pages k req =
     (if k = 0 then PageResponse True 200
        (Some [[(''name__v'', JString ''[ABC]''), (''code__c'', JString ''[A][B]''),
                (''rank__c'', JNumber 7)]])
      else if k = 1 then PageThrows ''Failed to fetch''
      else if k = 2 then PageResponse True 200 (Some [[(''name__v'', JString ''x]y['')]])
      else PageResponse True 200 (Some []))"

text \<open>
  A service whose first request is rejected, whose second delivers one record and whose
  later ones deliver the empty page.
\<close>

definition example_recovering :: page_server where
  "example_recovering k req =
     (if k = 0 then PageResponse False 500 None
      else if k = 1 then PageResponse True 200 (Some [[(''name__v'', JString ''[N]'')]])
      else PageResponse True 200 (Some []))"

text \<open>A service whose first two requests throw and whose later ones deliver the empty page.\<close>

definition example_flaky :: page_server where
  "example_flaky k req =
     (if k < 2 then PageThrows ''Failed to fetch'' else PageResponse True 200 (Some []))"

text \<open>A service whose first request throws and whose later ones deliver the empty page.\<close>

definition example_stalled :: page_server where
  "example_stalled k req =
     (if k = 0 then PageThrows ''Failed to fetch'' else PageResponse True 200 (Some []))"

text \<open>The state in which the loop ends on \<^const>\<open>example_recovering\<close> with pages of 100.\<close>

definition example_recovered :: pull_state where
  "example_recovered =
     \<lparr>offset = 50, allData = [[(''name__v'', JString ''N'')]], moreData = False,
      requests =
        map (\<lambda>(l, off). \<lparr>req_target = ''t'', req_authorization = ''h'', req_limit = l,
                           req_offset = off\<rparr>)
          [(100, 0), (50, 0), (100, 50)],
      progress = [1]\<rparr>"

text \<open>What \<^verbatim>\<open>pullData\<close> has done when it returns from \<^const>\<open>example_pages\<close>.\<close>

definition example_pulled :: pull_state where
  "example_pulled =
     \<lparr>offset = 150,
      allData = [[(''name__v'', JString ''ABC''), (''code__c'', JString ''A[B]''),
                  (''rank__c'', JNumber 7)],
                 [(''name__v'', JString ''xy'')]],
      moreData = False,
      requests =
        map (\<lambda>(l, off). \<lparr>req_target =
               ''https://vault.example/api/v24.1/vobjects/account__v?fields=name__v,code__c,rank__c'',
               req_authorization = ''Bearer S1'', req_limit = l, req_offset = off\<rparr>)
          [(100, 0), (100, 100), (50, 100), (100, 150)],
      progress = [1, 2]\<rparr>"

definition example_start :: pull_state where
  "example_start = \<lparr>offset = 0, allData = [], moreData = True, requests = [], progress = []\<rparr>"

text \<open>
  A service for writes: the first batch is accepted, the request of the second throws,
  the third is rejected with status 400.
\<close>

definition example_writes :: push_server where
  "example_writes i req =
     (if i = 0 then PushResponse True 200 ''SUCCESS''
      else if i = 1 then PushThrows ''Failed to fetch'' ''TypeError: Failed to fetch''
      else PushResponse False 400 ''FAILURE'')"

definition example_rows :: "jsrecord list" where
  "example_rows = map (\<lambda>n. [(''id'', JString n)]) [''V1'', ''V2'', ''V3'', ''V4'', ''V5'']"

definition example_many :: "jsrecord list" where
  "example_many = map (\<lambda>n. [(''id'', JNumber n)]) [1, 2, 3, 4, 5, 6, 7, 8, 9, 10, 11, 12]"

text \<open>What \<^verbatim>\<open>pushData\<close> has done after inserting \<^const>\<open>example_rows\<close> two at a time.\<close>

definition example_pushed :: push_run where
  "example_pushed =
     \<lparr>results =
        \<lparr>total = 3, success = 1, failures = 2,
         logs =
           [\<lparr>batch = 1, status = StatusCode 200,
             message = ''Batch 1 processed successfully'', response = ''SUCCESS''\<rparr>,
            \<lparr>batch = 2, status = StatusError,
             message = ''Batch 2 failed: Failed to fetch'',
             response = ''TypeError: Failed to fetch''\<rparr>,
            \<lparr>batch = 3, status = StatusCode 400,
             message = ''Batch 3 failed: 400'', response = ''FAILURE''\<rparr>]\<rparr>,
      sent =
        map (\<lambda>ids. \<lparr>http_method = ''POST'',
               url = ''https://vault.example/api/v24.1/vobjects/account__v'',
               authorization = ''Bearer S1'',
               body = map (\<lambda>n. [(''id'', JString n)]) ids\<rparr>)
          [[''V1'', ''V2''], [''V3'', ''V4''], [''V5'']],
      calls = [(1, 3), (2, 3), (3, 3)]\<rparr>"

text \<open>
  A service for the metadata: the fields of the first object asked for are delivered,
  every later request throws.
\<close>

definition example_fields :: fields_server where
  "example_fields i address =
     (if i = 0 then FieldsResponse True 200 (Some [''name__v'', ''id''])
      else FieldsThrows ''Failed to fetch'')"

definition example_exported :: export_run where
  "example_exported =
     \<lparr>pairs = [\<lparr>Object_Name = ''account__v'', Field_Name = ''id''\<rparr>,
               \<lparr>Object_Name = ''account__v'', Field_Name = ''name__v''\<rparr>],
      asked = [''https://vault.example/api/v24.1/metadata/vobjects/account__v'',
               ''https://vault.example/api/v24.1/metadata/vobjects/product__v''],
      reported = [(1, 2), (2, 2)]\<rparr>"

text \<open>
  States of the application: the file and the fields of the example of the
  specification; a file with a column that matches nothing; a file whose only column is
  called \<^verbatim>\<open>constructor\<close>; and a state after another object, one without fields, was
  selected and another file loaded.
\<close>

definition example_loaded :: app_state where
  "example_loaded =
     \<lparr>inputFileData = Some \<lparr>columns = [''Account_Name'', ''Email''], rows = []\<rparr>,
      availableFields = [''Account Name'', ''email''],
      columnMappings = Map.empty\<rparr>"

definition example_unmatched :: app_state where
  "example_unmatched =
     \<lparr>inputFileData = Some \<lparr>columns = [''Notes'', ''first name''], rows = []\<rparr>,
      availableFields = [''First_Name'', ''email''],
      columnMappings = Map.empty\<rparr>"

definition example_constructor :: app_state where
  "example_constructor =
     \<lparr>inputFileData = Some \<lparr>columns = [''constructor''], rows = []\<rparr>,
      availableFields = [''name__v''],
      columnMappings = Map.empty\<rparr>"

definition example_reselected :: app_state where
  "example_reselected =
     (autoMapColumns example_loaded)
       \<lparr>inputFileData := Some \<lparr>columns = [''Phone''], rows = []\<rparr>, availableFields := []\<rparr>"

section \<open>Pulled values are cleaned\<close>

lemma js_replace_char: "js_replace [c] [] s = remove1 c s"
  by (induction s) auto

lemma cleanString_remove1: "cleanString s = remove1 CHR '']'' (remove1 CHR ''['' s)"
  by (simp add: cleanString_def js_replace_char)

lemma allData_ingest:
  "allData (ingest cb used bd st) =
     allData st @ map cleanRecord (case bd of None \<Rightarrow> [] | Some rs \<Rightarrow> rs)"
  by (simp add: ingest_def Let_def split: option.splits)

lemma requests_ingest: "requests (ingest cb used bd st) = requests st"
  by (simp add: ingest_def Let_def split: option.splits)

lemma ingest_page:
  "recs \<noteq> [] \<Longrightarrow>
     ingest cb used (Some recs) st =
       st\<lparr>allData := allData st @ map cleanRecord recs, offset := offset st + used,
          progress := (if cb then progress st @ [length (allData st @ map cleanRecord recs)]
                       else progress st)\<rparr>"
  by (simp add: ingest_def Let_def)

lemma allData_pull_step:
  "allData (pull_step srv target auth batchSize cb st) =
     allData st @ map cleanRecord (delivered srv target auth batchSize st)"
  by (auto simp: pull_step_def delivered_def send_def Let_def allData_ingest page_failed_def
        page_records_def
      split: page_reply.splits bool.splits option.splits prod.splits)

text \<open>Whatever a finished loop has added to \<^const>\<open>allData\<close> went through the cleaning.\<close>

lemma pull_loop_cleaned:
  assumes "pull_loop srv target auth batchSize cb st = Some fin"
  shows "\<exists>raw. allData fin = allData st @ map cleanRecord raw"
proof (rule pull_loop.raw_induct
    [where P = "\<lambda>srv target auth batchSize cb st fin.
                  \<exists>raw. allData fin = allData st @ map cleanRecord raw",
     OF _ assms])
  fix loop :: "page_server \<Rightarrow> string \<Rightarrow> string \<Rightarrow> int \<Rightarrow> bool \<Rightarrow> pull_state \<Rightarrow> pull_state option"
  fix srv target auth batchSize cb st fin
  assume IH: "\<And>srv target auth batchSize cb st fin.
      loop srv target auth batchSize cb st = Some fin
      \<Longrightarrow> \<exists>raw. allData fin = allData st @ map cleanRecord raw"
  assume unfolded:
    "(if moreData st
      then loop srv target auth batchSize cb (pull_step srv target auth batchSize cb st)
      else Some st) = Some fin"
  show "\<exists>raw. allData fin = allData st @ map cleanRecord raw"
  proof (cases "moreData st")
    case True
    with unfolded
    have "loop srv target auth batchSize cb (pull_step srv target auth batchSize cb st) = Some fin"
      by simp
    from IH[OF this] obtain raw where
      "allData fin = allData (pull_step srv target auth batchSize cb st) @ map cleanRecord raw" ..
    then have "allData fin =
        allData st @ map cleanRecord (delivered srv target auth batchSize st @ raw)"
      by (simp add: allData_pull_step)
    then show ?thesis ..
  next
    case False
    with unfolded have "fin = st" by simp
    then have "allData fin = allData st @ map cleanRecord []" by simp
    then show ?thesis ..
  qed
qed

lemma pullData_cleaned:
  "pullData api auth srv objectName fieldNames batchSize cb = Some (Inr fin) \<Longrightarrow>
     \<exists>raw. allData fin = map cleanRecord raw"
  by (auto simp: pullData_def split: sum.splits dest!: pull_loop_cleaned)

text \<open>
  Claim C1, as the code has it. Cleaning a string removes its first \<^verbatim>\<open>[\<close> and its
  first \<^verbatim>\<open>]\<close> and nothing else; cleaning a record cleans the string values and leaves
  the keys and every other value alone; every record that one turn of the loop of
  \<^verbatim>\<open>pullData\<close> appends is the cleaned form of a record the service delivered in that
  turn, and everything \<^verbatim>\<open>pullData\<close> returns is a cleaned record. The value \<^verbatim>\<open>[ABC]\<close>
  becomes \<^verbatim>\<open>ABC\<close>, and the value \<^verbatim>\<open>[A][B]\<close> becomes \<^verbatim>\<open>A[B]\<close>: its first \<^verbatim>\<open>]\<close> is the
  one after \<^verbatim>\<open>A\<close>.
\<close>

theorem pull_removes_first_brackets:
  "cleanString s = remove1 CHR '']'' (remove1 CHR ''['' s)
   \<and> cleanString ''[ABC]'' = ''ABC''
   \<and> cleanString ''[A][B]'' = ''A[B]''
   \<and> map fst (cleanRecord r) = map fst r
   \<and> map snd (cleanRecord r) = map cleanValue (map snd r)
   \<and> cleanValue (JString s) = JString (remove1 CHR '']'' (remove1 CHR ''['' s))
   \<and> cleanValue JNull = JNull \<and> cleanValue (JBool b) = JBool b
   \<and> cleanValue (JNumber n) = JNumber n \<and> cleanValue (JArray vs) = JArray vs
   \<and> cleanValue (JObject kvs) = JObject kvs
   \<and> allData (pull_step srv target hdr batchSize cb st) =
        allData st @ map cleanRecord (delivered srv target hdr batchSize st)
   \<and> (pullData api auth srv objectName fieldNames batchSize cb = Some (Inr fin) \<longrightarrow>
        (\<exists>raw. allData fin = map cleanRecord raw))"
proof -
  have "map fst (cleanRecord r) = map fst r"
    by (induction r) (auto simp: cleanRecord_def)
  moreover have "map snd (cleanRecord r) = map cleanValue (map snd r)"
    by (induction r) (auto simp: cleanRecord_def)
  moreover have "cleanString ''[ABC]'' = ''ABC''" "cleanString ''[A][B]'' = ''A[B]''"
    by (simp_all add: cleanString_def)
  ultimately show ?thesis
    using pullData_cleaned[of api auth srv objectName fieldNames batchSize cb fin]
    by (simp add: cleanString_remove1 allData_pull_step)
qed

text \<open>
  The run of \<^verbatim>\<open>pullData\<close> against \<^const>\<open>example_pages\<close> ends, and what it returns is
  the cleaned form of the records delivered.
\<close>

lemma example_pull_run:
  "pullData example_api example_auth example_pages ''account__v''
     [''name__v'', ''code__c'', ''rank__c''] 100 True = Some (Inr example_pulled)"
  by code_simp

theorem pull_removes_first_brackets_witness:
  "\<exists>fin raw.
     pullData example_api example_auth example_pages ''account__v''
       [''name__v'', ''code__c'', ''rank__c''] 100 True = Some (Inr fin)
     \<and> allData fin = map cleanRecord raw
     \<and> allData fin = [[(''name__v'', JString ''ABC''), (''code__c'', JString ''A[B]''),
                         (''rank__c'', JNumber 7)],
                        [(''name__v'', JString ''xy'')]]"
proof -
  have "\<exists>raw. allData example_pulled = map cleanRecord raw"
    using pull_removes_first_brackets
      [where srv = example_pages and batchSize = 100 and cb = True and api = example_api
         and auth = example_auth and objectName = "''account__v''"
         and fieldNames = "[''name__v'', ''code__c'', ''rank__c'']" and fin = example_pulled]
      example_pull_run
    by blast
  moreover have "allData example_pulled =
      [[(''name__v'', JString ''ABC''), (''code__c'', JString ''A[B]''), (''rank__c'', JNumber 7)],
       [(''name__v'', JString ''xy'')]]"
    by (simp add: example_pulled_def)
  ultimately show ?thesis
    using example_pull_run by blast
qed

text \<open>The value \<^verbatim>\<open>[A][B]\<close> does not become \<^verbatim>\<open>A][B\<close>.\<close>

theorem second_bracket_example_counterexample:
  "cleanString ''[A][B]'' \<noteq> ''A][B''"
  by (simp add: cleanString_def)

section \<open>A failed page\<close>

lemma pull_loop_unfold:
  "moreData st \<Longrightarrow>
     pull_loop srv target auth batchSize cb st =
       pull_loop srv target auth batchSize cb (pull_step srv target auth batchSize cb st)"
  by (subst pull_loop.simps) simp

lemma pull_loop_done:
  "\<not> moreData st \<Longrightarrow> pull_loop srv target auth batchSize cb st = Some st"
  by (subst pull_loop.simps) simp

lemma requests_pull_step:
  "\<exists>rest. requests (pull_step srv target auth batchSize cb st) =
     requests st @ page_request_at target auth batchSize (offset st) # rest"
  by (auto simp: pull_step_def send_def Let_def requests_ingest
      split: page_reply.splits bool.splits prod.splits)

lemma pull_loop_requests_prefix:
  assumes "pull_loop srv target auth batchSize cb st = Some fin"
  shows "\<exists>ext. requests fin = requests st @ ext"
proof (rule pull_loop.raw_induct
    [where P = "\<lambda>srv target auth batchSize cb st fin. \<exists>ext. requests fin = requests st @ ext",
     OF _ assms])
  fix loop :: "page_server \<Rightarrow> string \<Rightarrow> string \<Rightarrow> int \<Rightarrow> bool \<Rightarrow> pull_state \<Rightarrow> pull_state option"
  fix srv target auth batchSize cb st fin
  assume IH: "\<And>srv target auth batchSize cb st fin.
      loop srv target auth batchSize cb st = Some fin \<Longrightarrow> \<exists>ext. requests fin = requests st @ ext"
  assume unfolded:
    "(if moreData st
      then loop srv target auth batchSize cb (pull_step srv target auth batchSize cb st)
      else Some st) = Some fin"
  show "\<exists>ext. requests fin = requests st @ ext"
  proof (cases "moreData st")
    case True
    with unfolded
    have "loop srv target auth batchSize cb (pull_step srv target auth batchSize cb st) = Some fin"
      by simp
    from IH[OF this] obtain ext where
      "requests fin = requests (pull_step srv target auth batchSize cb st) @ ext" ..
    moreover obtain rest where "requests (pull_step srv target auth batchSize cb st) =
        requests st @ page_request_at target auth batchSize (offset st) # rest"
      using requests_pull_step by blast
    ultimately have "requests fin =
        requests st @ (page_request_at target auth batchSize (offset st) # rest @ ext)"
      by simp
    then show ?thesis ..
  next
    case False
    with unfolded have "requests fin = requests st @ []" by simp
    then show ?thesis ..
  qed
qed

lemma pull_loop_next_request:
  assumes "pull_loop srv target auth batchSize cb st = Some fin" and "moreData st"
  shows "\<exists>ext. requests fin =
     requests st @ page_request_at target auth batchSize (offset st) # ext"
proof -
  from assms have "pull_loop srv target auth batchSize cb
      (pull_step srv target auth batchSize cb st) = Some fin"
    by (simp add: pull_loop_unfold)
  then obtain ext where
    "requests fin = requests (pull_step srv target auth batchSize cb st) @ ext"
    using pull_loop_requests_prefix by blast
  moreover obtain rest where "requests (pull_step srv target auth batchSize cb st) =
      requests st @ page_request_at target auth batchSize (offset st) # rest"
    using requests_pull_step by blast
  ultimately have "requests fin =
      requests st @ page_request_at target auth batchSize (offset st) # (rest @ ext)"
    by simp
  then show ?thesis ..
qed


lemma pull_step_failed:
  assumes "page_failed (srv (length (requests st)) (page_request_at target auth batchSize (offset st)))"
  shows "pull_step srv target auth batchSize cb st =
     (let first = page_request_at target auth batchSize (offset st);
          retry = page_request_at target auth (batchSize div 2) (offset st)
      in if 10 \<le> batchSize div 2 then
           (case srv (length (requests st) + 1) retry of
              PageResponse True c answer \<Rightarrow>
                ingest cb (batchSize div 2) answer (st\<lparr>requests := requests st @ [first, retry]\<rparr>)
            | _ \<Rightarrow> st\<lparr>requests := requests st @ [first, retry],
                       offset := offset st + batchSize div 2\<rparr>)
         else st\<lparr>requests := requests st @ [first], offset := offset st + batchSize\<rparr>)"
  using assms
  by (auto simp: pull_step_def send_def Let_def page_failed_def
      split: page_reply.splits bool.splits)

text \<open>
  Claim C3, as the code has it. Let the loop of \<^verbatim>\<open>pullData\<close> be at a state with more
  data to fetch, and let the request of its next page fail (it throws, or its response
  is not \<^verbatim>\<open>ok\<close>). When half the page size is at least 10, exactly one retry is sent,
  for the halved size at the same offset. If the retry delivers records, the loop goes
  on from the offset moved by the halved size, with the records ingested and with the
  original page size: the request after the retry asks for the original size. If the
  retry fails too, the loop goes on in the same way from the offset moved by the halved
  size, with nothing ingested. If the retry is answered with an empty page, the loop
  ends there, and the offset is the one of the failed page. When half the page size is
  below 10, no retry is sent and the loop goes on from the offset moved by the original
  page size. \<^verbatim>\<open>pullData\<close>, once it has its session, is this loop started at offset 0.
\<close>

theorem failed_page_in_loop:
  fixes srv :: page_server and st :: pull_state and target auth :: string
    and batchSize :: int and cb :: bool
  defines "k \<equiv> length (requests st)"
    and "first \<equiv> page_request_at target auth batchSize (offset st)"
    and "retry \<equiv> page_request_at target auth (batchSize div 2) (offset st)"
  assumes more: "moreData st" and failed: "page_failed (srv k first)"
  shows
   "(10 \<le> batchSize div 2 \<and> srv (k + 1) retry = PageResponse True code (Some recs)
        \<and> recs \<noteq> [] \<longrightarrow>
       pull_loop srv target auth batchSize cb st =
         pull_loop srv target auth batchSize cb
           (st\<lparr>requests := requests st @ [first, retry],
               allData := allData st @ map cleanRecord recs,
               offset := offset st + batchSize div 2,
               progress := (if cb then progress st @ [length (allData st) + length recs]
                            else progress st)\<rparr>))
    \<and> (10 \<le> batchSize div 2 \<and> page_failed (srv (k + 1) retry) \<longrightarrow>
       pull_loop srv target auth batchSize cb st =
         pull_loop srv target auth batchSize cb
           (st\<lparr>requests := requests st @ [first, retry],
               offset := offset st + batchSize div 2\<rparr>))
    \<and> (10 \<le> batchSize div 2 \<and> \<not> page_failed (srv (k + 1) retry)
        \<and> page_records (srv (k + 1) retry) = [] \<longrightarrow>
       pull_loop srv target auth batchSize cb st =
         Some (st\<lparr>requests := requests st @ [first, retry], moreData := False\<rparr>))
    \<and> (batchSize div 2 < 10 \<longrightarrow>
       pull_loop srv target auth batchSize cb st =
         pull_loop srv target auth batchSize cb
           (st\<lparr>requests := requests st @ [first], offset := offset st + batchSize\<rparr>))
    \<and> (pull_loop srv target auth batchSize cb st = Some fin \<longrightarrow>
         (10 \<le> batchSize div 2 \<longrightarrow>
            (\<exists>ext. requests fin = requests st @ first # retry # ext))
       \<and> (10 \<le> batchSize div 2
            \<and> (page_failed (srv (k + 1) retry) \<or> page_records (srv (k + 1) retry) \<noteq> []) \<longrightarrow>
            (\<exists>ext. requests fin = requests st @ first # retry #
               page_request_at target auth batchSize (offset st + batchSize div 2) # ext))
       \<and> (10 \<le> batchSize div 2 \<and> \<not> page_failed (srv (k + 1) retry)
            \<and> page_records (srv (k + 1) retry) = [] \<longrightarrow>
            requests fin = requests st @ [first, retry] \<and> offset fin = offset st)
       \<and> (batchSize div 2 < 10 \<longrightarrow>
            (\<exists>ext. requests fin = requests st @ first #
               page_request_at target auth batchSize (offset st + batchSize) # ext)))
    \<and> (fst (getSessionId api credentials) = Inr sid \<longrightarrow>
       pullData api credentials srv objectName fieldNames batchSize cb =
         map_option Inr
           (pull_loop srv (pull_target api objectName fieldNames) (getHeaders sid) batchSize cb
              \<lparr>offset = 0, allData = [], moreData = True, requests = [], progress = []\<rparr>))"
proof -
  let ?loop = "pull_loop srv target auth batchSize cb"
  let ?half = "batchSize div 2"
  let ?reply = "srv (k + 1) retry"
  let ?delivered = "\<lambda>recs. st\<lparr>requests := requests st @ [first, retry],
               allData := allData st @ map cleanRecord recs,
               offset := offset st + ?half,
               progress := (if cb then progress st @ [length (allData st) + length recs]
                            else progress st)\<rparr>"
  let ?skipped = "st\<lparr>requests := requests st @ [first, retry], offset := offset st + ?half\<rparr>"
  let ?ended = "st\<lparr>requests := requests st @ [first, retry], moreData := False\<rparr>"
  let ?small = "st\<lparr>requests := requests st @ [first], offset := offset st + batchSize\<rparr>"
  have step: "pull_step srv target auth batchSize cb st =
      (if 10 \<le> ?half then
         (case ?reply of
            PageResponse True c answer \<Rightarrow>
              ingest cb ?half answer (st\<lparr>requests := requests st @ [first, retry]\<rparr>)
          | _ \<Rightarrow> ?skipped)
       else ?small)"
    using failed
      pull_step_failed[where srv = srv and st = st and target = target and auth = auth
        and batchSize = batchSize and cb = cb]
    unfolding k_def first_def retry_def by (simp add: Let_def)
  have turn: "?loop st = ?loop (pull_step srv target auth batchSize cb st)"
    using more by (rule pull_loop_unfold)
  have A: "?loop st = ?loop (?delivered recs)"
    if "10 \<le> ?half" "?reply = PageResponse True code (Some recs)" "recs \<noteq> []" for code recs
    using that by (simp add: turn step Let_def ingest_page)
  have B: "?loop st = ?loop ?skipped" if "10 \<le> ?half" "page_failed ?reply"
    using that
    by (auto simp: turn step Let_def page_failed_def split: page_reply.splits bool.splits)
  have C: "?loop st = Some ?ended"
    if "10 \<le> ?half" "\<not> page_failed ?reply" "page_records ?reply = []"
  proof -
    have "pull_step srv target auth batchSize cb st = ?ended"
      using that
      by (auto simp: step Let_def page_failed_def page_records_def ingest_def
          split: page_reply.splits bool.splits option.splits)
    then show ?thesis by (simp add: turn pull_loop_done)
  qed
  have D: "?loop st = ?loop ?small" if "?half < 10"
    using that by (simp add: turn step Let_def)
  have next_of: "\<exists>ext. requests fin = requests s @ page_request_at target auth batchSize (offset s) # ext"
    if "?loop s = Some fin" "moreData s" for s
    using that by (rule pull_loop_next_request)
  have E1: "\<exists>ext. requests fin = requests st @ first # retry # ext"
    if fin: "?loop st = Some fin" and half: "10 \<le> ?half"
  proof -
    from fin have "?loop (pull_step srv target auth batchSize cb st) = Some fin"
      by (simp add: turn)
    then obtain ext where
      "requests fin = requests (pull_step srv target auth batchSize cb st) @ ext"
      using pull_loop_requests_prefix by blast
    moreover have "requests (pull_step srv target auth batchSize cb st) =
        requests st @ [first, retry]"
      using half
      by (auto simp: step Let_def requests_ingest split: page_reply.splits bool.splits)
    ultimately have "requests fin = requests st @ first # retry # ext" by simp
    then show ?thesis ..
  qed
  have E2: "\<exists>ext. requests fin = requests st @ first # retry #
        page_request_at target auth batchSize (offset st + ?half) # ext"
    if fin: "?loop st = Some fin" and half: "10 \<le> ?half"
      and reply: "page_failed ?reply \<or> page_records ?reply \<noteq> []"
  proof -
    from reply consider (failed) "page_failed ?reply"
      | (records) code recs where "?reply = PageResponse True code (Some recs)" "recs \<noteq> []"
      by (auto simp: page_records_def split: page_reply.splits bool.splits option.splits)
    then show ?thesis
    proof cases
      case failed
      with fin half have "?loop ?skipped = Some fin" by (simp add: B)
      from next_of[OF this] more show ?thesis by simp
    next
      case records
      with fin half have "?loop (?delivered recs) = Some fin" using A by simp
      from next_of[OF this] more show ?thesis by simp
    qed
  qed
  have E3: "requests fin = requests st @ [first, retry] \<and> offset fin = offset st"
    if "?loop st = Some fin" "10 \<le> ?half" "\<not> page_failed ?reply" "page_records ?reply = []"
    using that C by auto
  have E4: "\<exists>ext. requests fin = requests st @ first #
        page_request_at target auth batchSize (offset st + batchSize) # ext"
    if fin: "?loop st = Some fin" and half: "?half < 10"
  proof -
    from fin half have "?loop ?small = Some fin" by (simp add: D)
    from next_of[OF this] more show ?thesis by simp
  qed
  have G: "pullData api credentials srv objectName fieldNames batchSize cb =
         map_option Inr
           (pull_loop srv (pull_target api objectName fieldNames) (getHeaders sid) batchSize cb
              \<lparr>offset = 0, allData = [], moreData = True, requests = [], progress = []\<rparr>)"
    if "fst (getSessionId api credentials) = Inr sid"
    using that by (simp add: pullData_def)
  from A B C D E1 E2 E3 E4 G show ?thesis by blast
qed

lemma example_recovering_run:
  "pull_loop example_recovering ''t'' ''h'' 100 True example_start = Some example_recovered"
  by code_simp

text \<open>
  The four cases on concrete services: a retry at 50 that delivers a record, with the
  whole run; a retry at 50 that fails; a page size of 15, whose half is below 10; and a
  retry at 50 that meets the empty page, in a run of \<^verbatim>\<open>pullData\<close>.
\<close>

theorem failed_page_in_loop_witness:
  "pull_loop example_recovering ''t'' ''h'' 100 True example_start =
     pull_loop example_recovering ''t'' ''h'' 100 True
       \<lparr>offset = 50, allData = [[(''name__v'', JString ''N'')]], moreData = True,
        requests = [page_request_at ''t'' ''h'' 100 0, page_request_at ''t'' ''h'' 50 0],
        progress = [1]\<rparr>
   \<and> (\<exists>ext. requests example_recovered =
          page_request_at ''t'' ''h'' 100 0 # page_request_at ''t'' ''h'' 50 0 #
          page_request_at ''t'' ''h'' 100 50 # ext)
   \<and> pull_loop example_flaky ''t'' ''h'' 100 True example_start =
     pull_loop example_flaky ''t'' ''h'' 100 True
       \<lparr>offset = 50, allData = [], moreData = True,
        requests = [page_request_at ''t'' ''h'' 100 0, page_request_at ''t'' ''h'' 50 0],
        progress = []\<rparr>
   \<and> pull_loop example_flaky ''t'' ''h'' 15 True example_start =
     pull_loop example_flaky ''t'' ''h'' 15 True
       \<lparr>offset = 15, allData = [], moreData = True,
        requests = [page_request_at ''t'' ''h'' 15 0], progress = []\<rparr>
   \<and> pull_loop example_stalled ''t'' ''h'' 100 True example_start =
     Some \<lparr>offset = 0, allData = [], moreData = False,
           requests = [page_request_at ''t'' ''h'' 100 0, page_request_at ''t'' ''h'' 50 0],
           progress = []\<rparr>
   \<and> pullData example_api example_auth example_stalled ''account__v'' [''name__v''] 100 True =
     map_option Inr
       (pull_loop example_stalled (pull_target example_api ''account__v'' [''name__v''])
          (getHeaders (Some ''S1'')) 100 True example_start)"
proof -
  have more: "moreData example_start"
    by (simp add: example_start_def)
  have f1: "page_failed (example_recovering (length (requests example_start))
      (page_request_at ''t'' ''h'' 100 (offset example_start)))"
    by (simp add: example_recovering_def example_start_def page_failed_def)
  have f2: "page_failed (example_flaky (length (requests example_start))
      (page_request_at ''t'' ''h'' b (offset example_start)))" for b
    by (simp add: example_flaky_def example_start_def page_failed_def)
  have f3: "page_failed (example_stalled (length (requests example_start))
      (page_request_at ''t'' ''h'' 100 (offset example_start)))"
    by (simp add: example_stalled_def example_start_def page_failed_def)
  have session: "fst (getSessionId example_api example_auth) = Inr (Some ''S1'')"
    by (simp add: getSessionId_def example_api_def)
  have clean: "cleanRecord [(''name__v'', JString ''[N]'')] = [(''name__v'', JString ''N'')]"
    by (simp add: cleanRecord_def cleanString_def)
  note recovering = failed_page_in_loop
    [where srv = example_recovering and st = example_start and target = "''t''"
       and auth = "''h''" and batchSize = 100 and cb = True and code = 200
       and recs = "[[(''name__v'', JString ''[N]'')]]" and fin = example_recovered,
     OF more f1]
  note flaky = failed_page_in_loop
    [where srv = example_flaky and st = example_start and target = "''t''"
       and auth = "''h''" and batchSize = 100 and cb = True, OF more f2]
  note small = failed_page_in_loop
    [where srv = example_flaky and st = example_start and target = "''t''"
       and auth = "''h''" and batchSize = 15 and cb = True, OF more f2]
  note stalled = failed_page_in_loop
    [where srv = example_stalled and st = example_start and target = "''t''"
       and auth = "''h''" and batchSize = 100 and cb = True and api = example_api
       and credentials = example_auth and sid = "Some ''S1''"
       and objectName = "''account__v''" and fieldNames = "[''name__v'']", OF more f3]
  show ?thesis
    using recovering flaky small stalled example_recovering_run session
    by (simp add: example_recovering_def example_flaky_def example_stalled_def
        example_start_def page_failed_def page_records_def clean)
qed

text \<open>
  The first request of \<^verbatim>\<open>pullData\<close>, for 100 records at offset 0, throws; the retry for 50
  records is answered with the empty page. \<^verbatim>\<open>pullData\<close> returns, and the offset is still
  the one of the failed page.
\<close>

theorem failed_page_empty_retry_counterexample:
  "page_failed (example_stalled 0
      (page_request_at ''https://vault.example/api/v24.1/vobjects/account__v?fields=name__v''
         ''Bearer S1'' 100 0))
   \<and> pullData example_api example_auth example_stalled ''account__v'' [''name__v''] 100 True =
     Some (Inr
       \<lparr>offset = 0, allData = [], moreData = False,
        requests =
          [page_request_at ''https://vault.example/api/v24.1/vobjects/account__v?fields=name__v''
             ''Bearer S1'' 100 0,
           page_request_at ''https://vault.example/api/v24.1/vobjects/account__v?fields=name__v''
             ''Bearer S1'' 50 0],
        progress = []\<rparr>)"
  by code_simp

section \<open>The batches of a push\<close>

lemma js_slice_chunk:
  assumes "0 \<le> i" "1 \<le> n"
  shows "js_slice xs i (i + n) = take (nat n) (drop (nat i) xs)"
proof (cases "i \<le> int (length xs)")
  case True
  then have "nat (min (i + n) (int (length xs)) - i) = min (nat n) (length xs - nat i)"
    using assms by (auto simp: min_def)
  moreover have "take (min (nat n) (length xs - nat i)) (drop (nat i) xs) =
      take (nat n) (take (length xs - nat i) (drop (nat i) xs))"
    by (simp only: take_take)
  ultimately show ?thesis
    using assms True by (simp add: js_slice_def Let_def min_absorb1)
next
  case False
  then show ?thesis
    using assms by (simp add: js_slice_def Let_def)
qed

lemma js_slice_nat: "0 < N \<Longrightarrow> js_slice xs (int a) (int a + int N) = take N (drop a xs)"
  using js_slice_chunk[of "int a" "int N" xs] by simp

lemma chunk_count_less: "0 < N \<Longrightarrow> j * N < M \<longleftrightarrow> j < (M + N - 1) div N" for j N M :: nat
proof -
  assume N: "0 < N"
  have "j < (M + N - 1) div N \<longleftrightarrow> Suc j \<le> (M + N - 1) div N" by auto
  also have "\<dots> \<longleftrightarrow> Suc j * N \<le> M + N - 1" using N by (simp add: less_eq_div_iff_mult_less_eq)
  also have "\<dots> \<longleftrightarrow> j * N < M" using N by auto
  finally show ?thesis by simp
qed

lemma prepare_batches_from:
  assumes N: "0 < N"
  shows "j \<le> (length xs + N - 1) div N \<Longrightarrow>
    prepare_batches xs (int N) (int (j * N)) acc =
      Some (acc @ map (\<lambda>k. take N (drop (k * N) xs)) [j..<(length xs + N - 1) div N])"
proof (induction "(length xs + N - 1) div N - j" arbitrary: j acc)
  case 0
  then have j: "j = (length xs + N - 1) div N" by simp
  then have "\<not> j * N < length xs" using chunk_count_less[OF N, of j "length xs"] by simp
  then have "\<not> int (j * N) < int (length xs)" by (simp only: of_nat_less_iff simp_thms)
  then show ?case
    by (subst prepare_batches.simps) (simp only: if_False j upt_conv_Nil[OF order_refl] list.map append_Nil2)
next
  case (Suc d)
  then have lt: "j < (length xs + N - 1) div N" by simp
  then have "j * N < length xs" using chunk_count_less[OF N, of j "length xs"] by simp
  then have "int (j * N) < int (length xs)" by (simp only: of_nat_less_iff simp_thms)
  moreover have "js_slice xs (int (j * N)) (int (j * N) + int N) = take N (drop (j * N) xs)"
    using N by (rule js_slice_nat)
  moreover have "int (j * N) + int N = int (Suc j * N)" by simp
  moreover have "prepare_batches xs (int N) (int (Suc j * N)) (acc @ [take N (drop (j * N) xs)]) =
      Some ((acc @ [take N (drop (j * N) xs)]) @
        map (\<lambda>k. take N (drop (k * N) xs)) [Suc j..<(length xs + N - 1) div N])"
    using Suc(2) lt by (intro Suc(1)) auto
  ultimately show ?case
    using lt by (subst prepare_batches.simps) (simp only: if_True upt_conv_Cons list.map append_assoc append_Cons append_Nil)
qed

lemma prepare_batches_positive:
  "1 \<le> n \<Longrightarrow> prepare_batches xs n 0 [] =
     Some (map (\<lambda>k. take (nat n) (drop (k * nat n) xs)) [0..<(length xs + nat n - 1) div nat n])"
  using prepare_batches_from[of "nat n" 0 xs "[]"] by simp

lemma prepare_batches_empty: "prepare_batches [] n 0 acc = Some acc"
  by (subst prepare_batches.simps) simp

lemma prepare_batches_returns:
  assumes "prepare_batches xs n i acc = Some bs"
  shows "i < int (length xs) \<longrightarrow> 1 \<le> n"
proof (rule prepare_batches.raw_induct
    [where P = "\<lambda>xs n i acc bs. i < int (length xs) \<longrightarrow> 1 \<le> n", OF _ assms])
  fix loop :: "'a list \<Rightarrow> int \<Rightarrow> int \<Rightarrow> 'a list list \<Rightarrow> 'a list list option"
  fix xs n i acc bs
  assume IH: "\<And>xs n i acc bs. loop xs n i acc = Some bs \<Longrightarrow> i < int (length xs) \<longrightarrow> 1 \<le> n"
  assume unfolded: "(if i < int (length xs)
      then loop xs n (i + n) (acc @ [js_slice xs i (i + n)]) else Some acc) = Some bs"
  show "i < int (length xs) \<longrightarrow> 1 \<le> n"
  proof
    assume lt: "i < int (length xs)"
    with unfolded have "loop xs n (i + n) (acc @ [js_slice xs i (i + n)]) = Some bs" by simp
    from IH[OF this] have "i + n < int (length xs) \<longrightarrow> 1 \<le> n" .
    with lt show "1 \<le> n" by linarith
  qed
qed

lemma chunk_count_bounds:
  fixes M N :: nat
  assumes N: "0 < N"
  shows "((M + N - 1) div N - 1) * N < M \<or> M = 0" and "M \<le> (M + N - 1) div N * N"
proof -
  let ?c = "(M + N - 1) div N"
  show "M \<le> ?c * N"
    using chunk_count_less[OF N, of ?c M] by simp
  show "(?c - 1) * N < M \<or> M = 0"
  proof (cases "M = 0")
    case False
    then have "0 < ?c" using chunk_count_less[OF N, of 0 M] by simp
    then have "?c - 1 < ?c" by simp
    then show ?thesis using chunk_count_less[OF N, of "?c - 1" M] by simp
  qed simp
qed

lemma chunk_count_ceiling:
  assumes N: "0 < N"
  shows "int ((M + N - 1) div N) = \<lceil>real M / real N\<rceil>"
proof -
  let ?c = "(M + N - 1) div N"
  have up: "real M / real N \<le> real ?c"
    using chunk_count_bounds(2)[OF N, of M] N
    by (simp add: pos_divide_le_eq) (metis of_nat_le_iff of_nat_mult)
  have low: "real ?c - 1 < real M / real N"
  proof (cases "M = 0")
    case True
    then show ?thesis using N by simp
  next
    case False
    then have "(?c - 1) * N < M" using chunk_count_bounds(1)[OF N, of M] by simp
    then have "real ((?c - 1) * N) < real M" by (simp only: of_nat_less_iff)
    moreover have "0 < ?c" using False chunk_count_less[OF N, of 0 M] by simp
    ultimately have "(real ?c - 1) * real N < real M" by (simp add: of_nat_diff)
    then show ?thesis using N by (simp add: pos_less_divide_eq)
  qed
  have "\<lceil>real M / real N\<rceil> = int ?c"
    by (rule ceiling_unique) (use up low in simp_all)
  then show ?thesis by simp
qed

lemma concat_chunks_from:
  assumes N: "0 < N"
  shows "j \<le> (length xs + N - 1) div N \<Longrightarrow>
     concat (map (\<lambda>k. take N (drop (k * N) xs)) [j..<(length xs + N - 1) div N]) = drop (j * N) xs"
proof (induction "(length xs + N - 1) div N - j" arbitrary: j)
  case 0
  then have j: "j = (length xs + N - 1) div N" by simp
  then have "\<not> j * N < length xs" using chunk_count_less[OF N, of j "length xs"] by simp
  then show ?case by (simp add: j)
next
  case (Suc d)
  then have lt: "j < (length xs + N - 1) div N" by simp
  have rest: "concat (map (\<lambda>k. take N (drop (k * N) xs)) [Suc j..<(length xs + N - 1) div N]) =
      drop (Suc j * N) xs"
    using Suc(2) lt by (intro Suc(1)) auto
  have "drop (Suc j * N) xs = drop N (drop (j * N) xs)"
    by (simp add: add.commute)
  then have "take N (drop (j * N) xs) @ drop (Suc j * N) xs = drop (j * N) xs"
    by (simp only: append_take_drop_id)
  then show ?case
    using lt rest by (simp only: upt_conv_Cons list.map concat.simps)
qed

lemma length_chunk_full:
  "0 < N \<Longrightarrow> Suc k < (length xs + N - 1) div N \<Longrightarrow> length (take N (drop (k * N) xs)) = N"
  using chunk_count_less[of N "Suc k" "length xs"] by simp

lemma length_chunk_last:
  assumes N: "0 < N" and ne: "xs \<noteq> []"
  shows "length (take N (drop (((length xs + N - 1) div N - 1) * N) xs)) =
     (if length xs mod N = 0 then N else length xs mod N)"
proof -
  let ?M = "length xs" let ?c = "(?M + N - 1) div N"
  define d where "d = ?M - (?c - 1) * N"
  have lo: "(?c - 1) * N < ?M" using chunk_count_bounds(1)[OF N, of ?M] ne by simp
  have pos: "0 < ?c" using ne chunk_count_less[OF N, of 0 ?M] by simp
  have hi: "?M \<le> ?c * N" using chunk_count_bounds(2)[OF N, of ?M] .
  have "?c * N = (?c - 1) * N + N" using pos by (simp add: algebra_simps diff_mult_distrib)
  with hi have hi': "?M \<le> (?c - 1) * N + N" by simp
  have d: "0 < d" "d \<le> N" and M: "?M = (?c - 1) * N + d"
    unfolding d_def using hi' lo by linarith+
  have "?M mod N = d mod N" by (subst M) simp
  then have "(if ?M mod N = 0 then N else ?M mod N) = d"
    using d by (cases "d = N") auto
  moreover have "length (take N (drop ((?c - 1) * N) xs)) = d"
    using d by (simp add: d_def)
  ultimately show ?thesis by simp
qed

lemma sent_process_batches:
  "sent (process_batches srv mk cb n i bs run) = sent run @ map mk bs"
  by (induction bs arbitrary: i run) (simp_all add: process_batch_def Let_def)

lemma total_process_batches:
  "total (results (process_batches srv mk cb n i bs run)) = total (results run)"
  by (induction bs arbitrary: i run) (simp_all add: process_batch_def Let_def)

lemma logs_process_batches:
  "logs (results (process_batches srv mk cb n i bs run)) =
     logs (results run) @ map (\<lambda>j. batch_outcome (i + j) (srv (i + j) (mk (bs ! j)))) [0..<length bs]"
proof (induction bs arbitrary: i run)
  case Nil
  then show ?case by simp
next
  case (Cons b bs)
  have "map (\<lambda>j. batch_outcome (i + j) (srv (i + j) (mk ((b # bs) ! j)))) [0..<length (b # bs)] =
      batch_outcome i (srv i (mk b)) #
      map (\<lambda>j. batch_outcome (Suc i + j) (srv (Suc i + j) (mk (bs ! j)))) [0..<length bs]"
    by (simp add: upt_conv_Cons map_Suc_upt[symmetric] comp_def del: upt_Suc)
  then show ?case
    by (simp add: Cons.IH process_batch_def Let_def del: upt_Suc)
qed


lemma counts_process_batches:
  "success (results (process_batches srv mk cb n i bs run)) +
   failures (results (process_batches srv mk cb n i bs run)) =
     success (results run) + failures (results run) + length bs"
  by (induction bs arbitrary: i run) (simp_all add: process_batch_def Let_def)

lemma success_process_batches:
  "success (results (process_batches srv mk cb n i bs run)) =
     success (results run) + length (filter (\<lambda>j. batch_succeeded (srv (i + j) (mk (bs ! j)))) [0..<length bs])"
proof (induction bs arbitrary: i run)
  case Nil
  then show ?case by simp
next
  case (Cons b bs)
  have "filter (\<lambda>j. batch_succeeded (srv (i + j) (mk ((b # bs) ! j)))) [0..<length (b # bs)] =
      (if batch_succeeded (srv i (mk b)) then [0] else []) @
      map Suc (filter (\<lambda>j. batch_succeeded (srv (Suc i + j) (mk (bs ! j)))) [0..<length bs])"
    by (simp add: upt_conv_Cons map_Suc_upt[symmetric] filter_map comp_def del: upt_Suc)
  then show ?case
    by (simp add: Cons.IH process_batch_def Let_def del: upt_Suc)
qed

lemma body_write_request: "body (write_request api hdr obj op b) = b"
  by (simp add: write_request_def Let_def)

lemma pushData_returned:
  assumes "pushData api auth srv obj xs op b cb = Some (Inr run)"
  obtains sid bs where "fst (getSessionId api auth) = Inr sid"
    and "prepare_batches xs (actualBatchSize op b) 0 [] = Some bs"
    and "run = process_batches srv (write_request api (getHeaders sid) obj op) cb (length bs) 0 bs
           \<lparr>results = \<lparr>total = length bs, success = 0, failures = 0, logs = []\<rparr>,
            sent = [], calls = []\<rparr>"
  using assms by (auto simp: pushData_def split: sum.splits option.splits)


lemma pushData_terminates:
  assumes "1 \<le> actualBatchSize op b"
  shows "pushData api auth srv obj xs op b cb \<noteq> None"
  using assms by (simp add: pushData_def prepare_batches_positive split: sum.splits)

lemma prepared_lengths:
  assumes "prepare_batches xs n 0 [] = Some bs"
  shows "\<forall>c \<in> set bs. int (length c) \<le> n"
proof (cases "xs = []")
  case True
  with assms show ?thesis by (simp add: prepare_batches_empty)
next
  case False
  with prepare_batches_returns[OF assms] have n: "1 \<le> n" by simp
  with assms show ?thesis by (auto simp: prepare_batches_positive)
qed

lemma example_session: "fst (getSessionId example_api example_auth) = Inr (Some ''S1'')"
  by (simp add: getSessionId_def example_api_def)

lemma example_push_run:
  "pushData example_api example_auth example_writes ''account__v'' example_rows ''insert'' 2 True =
     Some (Inr example_pushed)"
  by code_simp

lemma example_merge_run:
  "map_option (map_sum id (\<lambda>run. map (\<lambda>r. length (body r)) (sent run)))
     (pushData example_api example_auth example_writes ''account__v'' example_many ''merge'' 200
        False) =
   Some (Inr [10, 2])"
  by code_simp

text \<open>
  Claim C2. Whatever batch size is requested, the size \<^verbatim>\<open>pushData\<close> works with is at
  most 10 for the operation \<^verbatim>\<open>merge\<close> and at most 500 for every operation; and when
  \<^verbatim>\<open>pushData\<close> returns, no request it has sent carries more records than that.
\<close>

theorem push_batch_size_capped:
  "actualBatchSize ''merge'' b \<le> 10
   \<and> actualBatchSize op b \<le> 500
   \<and> (pushData api auth srv obj xs op b cb = Some (Inr run) \<longrightarrow>
        (\<forall>req \<in> set (sent run).
           int (length (body req)) \<le> actualBatchSize op b
         \<and> int (length (body req)) \<le> (if op = ''merge'' then 10 else 500)))"
proof -
  have caps: "actualBatchSize ''merge'' b \<le> 10" "actualBatchSize op b \<le> 500"
    "actualBatchSize op b \<le> (if op = ''merge'' then 10 else 500)"
    by (auto simp: actualBatchSize_def)
  have "\<forall>req \<in> set (sent run). int (length (body req)) \<le> actualBatchSize op b"
    if "pushData api auth srv obj xs op b cb = Some (Inr run)"
  proof -
    from that obtain sid bs where
      bs: "prepare_batches xs (actualBatchSize op b) 0 [] = Some bs"
      and run: "run = process_batches srv (write_request api (getHeaders sid) obj op) cb (length bs) 0 bs
           \<lparr>results = \<lparr>total = length bs, success = 0, failures = 0, logs = []\<rparr>,
            sent = [], calls = []\<rparr>"
      by (rule pushData_returned)
    show ?thesis
      using prepared_lengths[OF bs] by (auto simp: run sent_process_batches body_write_request)
  qed
  with caps show ?thesis by force
qed

theorem push_batch_size_capped_witness:
  "\<exists>run. pushData example_api example_auth example_writes ''account__v'' example_many ''merge''
          200 False = Some (Inr run)
     \<and> list_all (\<lambda>req. int (length (body req)) \<le> 10) (sent run)
     \<and> map (\<lambda>req. length (body req)) (sent run) = [10, 2]"
proof -
  from example_merge_run obtain r where
    r: "pushData example_api example_auth example_writes ''account__v'' example_many ''merge''
          200 False = Some r"
    and "map_sum id (\<lambda>run. map (\<lambda>r. length (body r)) (sent run)) r = Inr [10, 2]"
    by auto
  then obtain run where "r = Inr run"
    and sizes: "map (\<lambda>r. length (body r)) (sent run) = [10, 2]"
    by (cases r) auto
  with r have
    run: "pushData example_api example_auth example_writes ''account__v'' example_many ''merge''
          200 False = Some (Inr run)"
    by simp
  from push_batch_size_capped
    [where b = 200 and op = "''merge''" and api = example_api and auth = example_auth
       and srv = example_writes and obj = "''account__v''" and xs = example_many and cb = False
       and run = run] run
  have "\<forall>req \<in> set (sent run). int (length (body req)) \<le> 10" by simp
  then have "list_all (\<lambda>req. int (length (body req)) \<le> 10) (sent run)"
    by (simp add: list_all_iff)
  with run sizes show ?thesis by (intro exI[of _ run]) simp
qed

text \<open>
  Claim C4. With a session and a clamped batch size \<open>N\<close> of at least one, \<^verbatim>\<open>pushData\<close>
  returns, and the bodies of the requests it has sent are the \<open>\<lceil>M / N\<rceil>\<close> consecutive
  slices of the \<open>M\<close> records, in order: the \<open>k\<close>-th holds the \<open>N\<close> records from position
  \<open>k * N\<close> on, every batch but the last has exactly \<open>N\<close> records, and the last has
  \<open>M mod N\<close> of them, or \<open>N\<close> when \<open>N\<close> divides \<open>M\<close>.
\<close>

theorem push_partitions_records:
  fixes xs :: "jsrecord list"
  defines "M \<equiv> length xs"
  assumes session: "fst (getSessionId api auth) = Inr sid"
    and positive: "1 \<le> actualBatchSize op b"
  shows "\<exists>run N. N = nat (actualBatchSize op b)
    \<and> pushData api auth srv obj xs op b cb = Some (Inr run)
    \<and> int (length (sent run)) = \<lceil>real M / real N\<rceil>
    \<and> length (sent run) = (M + N - 1) div N
    \<and> total (results run) = length (sent run)
    \<and> concat (map body (sent run)) = xs
    \<and> (\<forall>k < length (sent run). body (sent run ! k) = take N (drop (k * N) xs))
    \<and> (\<forall>k. Suc k < length (sent run) \<longrightarrow> length (body (sent run ! k)) = N)
    \<and> (xs \<noteq> [] \<longrightarrow>
         length (body (last (sent run))) = (if M mod N = 0 then N else M mod N))"
proof -
  define N where "N = nat (actualBatchSize op b)"
  define c where "c = (M + N - 1) div N"
  define bs where "bs = map (\<lambda>k. take N (drop (k * N) xs)) [0..<c]"
  define mk where "mk = write_request api (getHeaders sid) obj op"
  define run where "run = process_batches srv mk cb (length bs) 0 bs
      \<lparr>results = \<lparr>total = length bs, success = 0, failures = 0, logs = []\<rparr>,
       sent = [], calls = []\<rparr>"
  have N: "0 < N" using positive by (simp add: N_def)
  have prep: "prepare_batches xs (actualBatchSize op b) 0 [] = Some bs"
    using prepare_batches_positive[OF positive, of xs] by (simp add: bs_def c_def N_def M_def)
  have pushed: "pushData api auth srv obj xs op b cb = Some (Inr run)"
    by (simp add: pushData_def session prep run_def mk_def)
  have sent: "sent run = map mk bs"
    by (simp add: run_def sent_process_batches)
  have bodies: "map body (sent run) = bs"
    by (simp add: sent mk_def body_write_request comp_def)
  have len: "length (sent run) = c"
    by (simp add: sent bs_def)
  have nth: "body (sent run ! k) = take N (drop (k * N) xs)" if "k < c" for k
    using that by (simp add: sent bs_def mk_def body_write_request)
  have "concat bs = xs"
    using concat_chunks_from[OF N, of 0 xs] by (simp add: bs_def c_def M_def)
  moreover have "total (results run) = length (sent run)"
    unfolding sent by (simp add: run_def total_process_batches)
  moreover have "int c = \<lceil>real M / real N\<rceil>"
    unfolding c_def by (rule chunk_count_ceiling[OF N])
  moreover have "length (body (sent run ! k)) = N" if "Suc k < c" for k
    using that length_chunk_full[OF N, of k xs] nth[of k] by (simp add: c_def M_def)
  moreover have "length (body (last (sent run))) = (if M mod N = 0 then N else M mod N)"
    if "xs \<noteq> []"
  proof -
    have "0 < c" using that chunk_count_less[OF N, of 0 M] by (simp add: c_def M_def)
    then have "last (sent run) = sent run ! (c - 1)"
      using len by (metis last_conv_nth length_0_conv less_numeral_extra(3))
    then show ?thesis
      using length_chunk_last[OF N that] nth[of "c - 1"] \<open>0 < c\<close> by (simp add: c_def M_def)
  qed
  ultimately show ?thesis
    using pushed bodies len nth N_def c_def by (intro exI[of _ run] exI[of _ N]) simp
qed

theorem push_partitions_records_witness:
  "\<exists>run. pushData example_api example_auth example_writes ''account__v'' example_rows ''insert''
          2 True = Some (Inr run)
     \<and> int (length (sent run)) = \<lceil>real (length example_rows) / real (2::nat)\<rceil>
     \<and> concat (map body (sent run)) = example_rows
     \<and> map (\<lambda>req. length (body req)) (sent run) = [2, 2, 1]"
proof -
  have positive: "1 \<le> actualBatchSize ''insert'' 2"
    by (simp add: actualBatchSize_def)
  from push_partitions_records[OF example_session positive,
      of example_writes "''account__v''" example_rows True]
  obtain run N where N: "N = nat (actualBatchSize ''insert'' 2)"
    and run: "pushData example_api example_auth example_writes ''account__v'' example_rows
        ''insert'' 2 True = Some (Inr run)"
    and count: "int (length (sent run)) = \<lceil>real (length example_rows) / real N\<rceil>"
    and whole: "concat (map body (sent run)) = example_rows"
    by (elim exE conjE)
  have "N = 2" using N by (simp add: actualBatchSize_def)
  moreover have "run = example_pushed" using run example_push_run by simp
  then have "map (\<lambda>req. length (body req)) (sent run) = [2, 2, 1]"
    by (simp add: example_pushed_def)
  ultimately show ?thesis using run count whole by (intro exI[of _ run]) simp
qed

text \<open>
  Claim C5. When \<^verbatim>\<open>pushData\<close> returns a result, its success count and its failure count
  add up to its total, which is the number of batches submitted (and of log entries);
  and with a clamped batch size of at least one \<^verbatim>\<open>pushData\<close> does return.
\<close>

theorem push_counts_add_up:
  "(pushData api auth srv obj xs op b cb = Some (Inr run) \<longrightarrow>
      success (results run) + failures (results run) = total (results run)
    \<and> total (results run) = length (sent run)
    \<and> length (logs (results run)) = total (results run))
   \<and> (1 \<le> actualBatchSize op b \<longrightarrow> pushData api auth srv obj xs op b cb \<noteq> None)"
proof -
  have "success (results run) + failures (results run) = total (results run)
    \<and> total (results run) = length (sent run)
    \<and> length (logs (results run)) = total (results run)"
    if "pushData api auth srv obj xs op b cb = Some (Inr run)"
  proof -
    from that obtain sid bs where
      run: "run = process_batches srv (write_request api (getHeaders sid) obj op) cb (length bs) 0 bs
           \<lparr>results = \<lparr>total = length bs, success = 0, failures = 0, logs = []\<rparr>,
            sent = [], calls = []\<rparr>"
      by (rule pushData_returned)
    show ?thesis
      by (simp add: run counts_process_batches total_process_batches sent_process_batches
          logs_process_batches)
  qed
  then show ?thesis
    using pushData_terminates[of op b api auth srv obj xs cb] by blast
qed

theorem push_counts_add_up_witness:
  "\<exists>run. pushData example_api example_auth example_writes ''account__v'' example_rows ''insert''
          2 True = Some (Inr run)
     \<and> success (results run) + failures (results run) = total (results run)
     \<and> total (results run) = length (sent run)
     \<and> success (results run) = 1 \<and> failures (results run) = 2"
proof -
  from push_counts_add_up
    [where api = example_api and auth = example_auth and srv = example_writes
       and obj = "''account__v''" and xs = example_rows and op = "''insert''" and b = 2
       and cb = True and run = example_pushed] example_push_run
  have "success (results example_pushed) + failures (results example_pushed) =
      total (results example_pushed)
    \<and> total (results example_pushed) = length (sent example_pushed)"
    by simp
  moreover have "success (results example_pushed) = 1 \<and> failures (results example_pushed) = 2"
    by (simp add: example_pushed_def)
  ultimately show ?thesis using example_push_run by (intro exI[of _ example_pushed]) simp
qed



text \<open>
  Claim C10. With a session and no records, \<^verbatim>\<open>pushData\<close> returns, for every operation
  and every requested batch size, the result with total, success and failure counts
  zero and an empty log; it has sent no request and has not called the progress
  callback.
\<close>

theorem push_nothing_for_no_records:
  assumes "fst (getSessionId api auth) = Inr sid"
  shows "pushData api auth srv obj [] op b cb =
     Some (Inr \<lparr>results = \<lparr>total = 0, success = 0, failures = 0, logs = []\<rparr>,
                sent = [], calls = []\<rparr>)"
  using assms by (simp add: pushData_def prepare_batches_empty)

theorem push_nothing_for_no_records_witness:
  "pushData example_api example_auth example_writes ''account__v'' [] ''merge'' 10 True =
     Some (Inr \<lparr>results = \<lparr>total = 0, success = 0, failures = 0, logs = []\<rparr>,
                sent = [], calls = []\<rparr>)"
  using example_session by (rule push_nothing_for_no_records)

section \<open>The export of the metadata\<close>

lemma pairs_collect_objects:
  "pairs (collect_objects srv api cb n i objs run) =
     pairs run @ concat (map (\<lambda>j. object_rows (objs ! j) (srv (i + j) (fields_url api (objs ! j))))
                         [0..<length objs])"
proof (induction objs arbitrary: i run)
  case Nil
  then show ?case by simp
next
  case (Cons a objs)
  have "map (\<lambda>j. object_rows ((a # objs) ! j) (srv (i + j) (fields_url api ((a # objs) ! j))))
          [0..<length (a # objs)] =
        object_rows a (srv i (fields_url api a)) #
        map (\<lambda>j. object_rows (objs ! j) (srv (Suc i + j) (fields_url api (objs ! j)))) [0..<length objs]"
    by (simp add: upt_conv_Cons map_Suc_upt[symmetric] comp_def del: upt_Suc)
  then show ?case
    by (simp add: Cons.IH del: upt_Suc)
qed

lemma reported_collect_objects:
  "reported (collect_objects srv api cb n i objs run) =
     reported run @ (if cb then map (\<lambda>j. (i + j + 1, n)) [0..<length objs] else [])"
proof (induction objs arbitrary: i run)
  case Nil
  then show ?case by simp
next
  case (Cons a objs)
  have "map (\<lambda>j. (i + j + 1, n)) [0..<length (a # objs)] =
      (i + 1, n) # map (\<lambda>j. (Suc i + j + 1, n)) [0..<length objs]"
    by (simp add: upt_conv_Cons map_Suc_upt[symmetric] comp_def del: upt_Suc)
  then show ?case
    by (simp add: Cons.IH del: upt_Suc)
qed

lemma asked_collect_objects:
  "asked (collect_objects srv api cb n i objs run) = asked run @ map (fields_url api) objs"
  by (induction objs arbitrary: i run) simp_all

lemma example_export_run:
  "exportMetadata example_api example_auth
     (ObjectsResponse True 200 [''product__v'', ''account__v'']) example_fields True =
   Inr example_exported"
  by code_simp

text \<open>
  Claim C9. With a session and a listing of the objects, \<^verbatim>\<open>exportMetadata\<close> asks for the
  fields of every object, in the sorted order of the names; the result is made of the
  rows of each object in turn, where an object whose request throws, or is answered
  with a response that is not \<^verbatim>\<open>ok\<close> or has no fields, contributes no row and the others
  contribute one row per field; and a progress callback, when one is given, is called
  once per object with the number of objects processed and the number of objects.
\<close>

theorem export_skips_failed_object:
  assumes session: "fst (getSessionId api auth) = Inr sid"
  shows "\<exists>run objs. objs = sort names
    \<and> exportMetadata api auth (ObjectsResponse True code names) srv cb = Inr run
    \<and> pairs run =
        concat (map (\<lambda>i. object_rows (objs ! i) (srv i (fields_url api (objs ! i))))
                  [0..<length objs])
    \<and> asked run = map (fields_url api) objs
    \<and> reported run = (if cb then map (\<lambda>i. (i + 1, length names)) [0..<length names] else [])
    \<and> object_rows obj (FieldsThrows msg) = []
    \<and> object_rows obj (FieldsResponse False code' answer) = []
    \<and> object_rows obj (FieldsResponse True code' None) = []
    \<and> object_rows obj (FieldsResponse True code' (Some fieldNames)) =
        map (\<lambda>f. \<lparr>Object_Name = obj, Field_Name = f\<rparr>) (sort fieldNames)"
  using session
  by (simp add: exportMetadata_def Let_def pairs_collect_objects reported_collect_objects
      asked_collect_objects object_rows_def)

text \<open>
  Two objects, the second of which fails: the result holds the rows of the first only,
  and the last progress report is \<open>(2, 2)\<close>.
\<close>

theorem export_skips_failed_object_witness:
  "\<exists>run. exportMetadata example_api example_auth
          (ObjectsResponse True 200 [''product__v'', ''account__v'']) example_fields True = Inr run
     \<and> pairs run = [\<lparr>Object_Name = ''account__v'', Field_Name = ''id''\<rparr>,
                     \<lparr>Object_Name = ''account__v'', Field_Name = ''name__v''\<rparr>]
     \<and> reported run = [(1, 2), (2, 2)]
     \<and> last (reported run) = (2, 2)"
proof -
  from export_skips_failed_object[OF example_session,
      where names = "[''product__v'', ''account__v'']" and code = 200 and srv = example_fields
        and cb = True and obj = "[]" and msg = "[]" and code' = 0 and answer = None
        and fieldNames = "[]"]
  obtain run where
    run: "exportMetadata example_api example_auth
          (ObjectsResponse True 200 [''product__v'', ''account__v'']) example_fields True = Inr run"
    and reports: "reported run =
          (if True then map (\<lambda>i. (i + 1, length [''product__v'', ''account__v'']))
             [0..<length [''product__v'', ''account__v'']] else [])"
    by (elim exE conjE)
  from run example_export_run have "run = example_exported" by simp
  then have "pairs run = [\<lparr>Object_Name = ''account__v'', Field_Name = ''id''\<rparr>,
                     \<lparr>Object_Name = ''account__v'', Field_Name = ''name__v''\<rparr>]"
    "last (reported run) = (2, 2)"
    by (simp_all add: example_exported_def)
  with run reports show ?thesis by (simp add: upt_rec numeral_2_eq_2)
qed

section \<open>The column mapper\<close>

lemma matchColumn_matchValue:
  "matchColumn F T st c =
     (case matchValue F T c of None \<Rightarrow> st | Some v \<Rightarrow> setColumnMapping st c v)"
  by (simp add: matchColumn_def matchValue_def split: option.splits)

lemma columnMappings_matchColumn:
  "columnMappings (matchColumn F T st a) c =
     (if a = c \<and> c \<noteq> ''__proto__'' then
        (case matchValue F T c of Some v \<Rightarrow> Some v | None \<Rightarrow> columnMappings st c)
      else columnMappings st c)"
  by (auto simp: matchColumn_matchValue setColumnMapping_def js_set_def split: option.splits)

lemma columnMappings_foldl_matchColumn:
  "columnMappings (foldl (matchColumn F T) st cs) c =
     (if c \<in> set cs \<and> c \<noteq> ''__proto__'' then
        (case matchValue F T c of Some v \<Rightarrow> Some v | None \<Rightarrow> columnMappings st c)
      else columnMappings st c)"
proof (induction cs arbitrary: st)
  case Nil
  then show ?case by simp
next
  case (Cons a cs)
  show ?case
    by (simp add: Cons.IH columnMappings_matchColumn split: option.splits)
qed

lemma find_append:
  "List.find P (xs @ ys) = (case List.find P xs of Some x \<Rightarrow> Some x | None \<Rightarrow> List.find P ys)"
  by (induction xs) auto

lemma foldl_lower_table:
  "foldl (\<lambda>obj field. js_set obj (toLowerCase field) (FieldName field)) m fs k =
     (if k = ''__proto__'' then m k
      else case List.find (\<lambda>f. toLowerCase f = k) (rev fs) of
        Some f \<Rightarrow> Some (FieldName f)
      | None \<Rightarrow> m k)"
proof (induction fs arbitrary: m)
  case Nil
  then show ?case by simp
next
  case (Cons a fs)
  let ?F = "\<lambda>obj field. js_set obj (toLowerCase field) (FieldName field)"
  let ?m = "js_set m (toLowerCase a) (FieldName a)"
  have "foldl ?F m (a # fs) k = foldl ?F ?m fs k" by simp
  also have "\<dots> = (if k = ''__proto__'' then ?m k
      else case List.find (\<lambda>f. toLowerCase f = k) (rev fs) of
        Some f \<Rightarrow> Some (FieldName f)
      | None \<Rightarrow> ?m k)"
    by (rule Cons.IH)
  also have "\<dots> = (if k = ''__proto__'' then m k
      else case List.find (\<lambda>f. toLowerCase f = k) (rev (a # fs)) of
        Some f \<Rightarrow> Some (FieldName f)
      | None \<Rightarrow> m k)"
    by (auto simp: js_set_def find_append split: option.splits)
  finally show ?case .
qed

lemma vaultFieldsLower_own:
  "vaultFieldsLower fs k =
     (if k = ''__proto__'' then None else map_option FieldName (spec_find fs k))"
  by (simp add: vaultFieldsLower_def foldl_lower_table spec_find_def split: option.splits)

lemma find_Some_in: "List.find P xs = Some x \<Longrightarrow> x \<in> set xs \<and> P x"
  by (induction xs) (auto split: if_splits)

lemma spec_find_in: "spec_find fs k = Some f \<Longrightarrow> f \<in> set fs \<and> toLowerCase f = k"
  using find_Some_in[of "\<lambda>f. toLowerCase f = k" "rev fs" f] by (simp add: spec_find_def)

lemma proto_is_prototype_key: "''__proto__'' \<in> set object_prototype_keys"
  by (simp add: object_prototype_keys_def)

lemma lookup_truthy_lower_table:
  assumes "k \<notin> set object_prototype_keys" "[] \<notin> set fs"
  shows "lookup_truthy (vaultFieldsLower fs) k = map_option FieldName (spec_find fs k)"
proof -
  have "k \<noteq> ''__proto__''" using assms(1) proto_is_prototype_key by blast
  moreover have "f \<noteq> []" if "spec_find fs k = Some f" for f
    using spec_find_in[OF that] assms(2) by auto
  ultimately show ?thesis
    using assms(1)
    by (cases "spec_find fs k") (auto simp: lookup_truthy_def js_get_def vaultFieldsLower_own)
qed

lemma matchValue_spec:
  assumes "toLowerCase c \<notin> set object_prototype_keys"
    "toLowerCase (js_replace ''_'' '' '' c) \<notin> set object_prototype_keys"
    "toLowerCase (js_replace '' '' ''_'' c) \<notin> set object_prototype_keys"
    "[] \<notin> set fs"
  shows "matchValue fs (vaultFieldsLower fs) c = map_option FieldName (spec_autoMap fs c)"
  using assms
  by (simp add: matchValue_def spec_autoMap_def lookup_truthy_lower_table split: option.splits)

lemma autoMapColumns_ready:
  "inputFileData st = Some loaded \<Longrightarrow> availableFields st \<noteq> [] \<Longrightarrow>
     columnMappings (autoMapColumns st) c =
       (if c \<in> set (columns loaded) \<and> c \<noteq> ''__proto__''
        then matchValue (availableFields st) (vaultFieldsLower (availableFields st)) c
        else None)"
  by (simp add: autoMapColumns_def columnMappings_foldl_matchColumn clearColumnMappings_def
      split: option.splits)

lemma autoMapColumns_follows_spec:
  assumes "inputFileData st = Some loaded" "availableFields st \<noteq> []" "[] \<notin> set (availableFields st)"
    and "c \<in> set (columns loaded)"
    and "toLowerCase c \<notin> set object_prototype_keys"
    and "toLowerCase (js_replace ''_'' '' '' c) \<notin> set object_prototype_keys"
    and "toLowerCase (js_replace '' '' ''_'' c) \<notin> set object_prototype_keys"
  shows "columnMappings (autoMapColumns st) c = map_option FieldName (spec_autoMap (availableFields st) c)"
proof -
  have "toLowerCase ''__proto__'' = ''__proto__''"
    by (simp add: toLowerCase_def lower_char_def)
  then have "c \<noteq> ''__proto__''"
    using assms(5) proto_is_prototype_key by auto
  then show ?thesis
    using assms by (simp add: autoMapColumns_ready matchValue_spec)
qed

lemmas automap_eval =
  autoMapColumns_def clearColumnMappings_def vaultFieldsLower_def matchColumn_def
  lookup_truthy_def js_get_def js_set_def setColumnMapping_def toLowerCase_def lower_char_def
  object_prototype_keys_def

text \<open>The example of the specification, and a column that matches nothing.\<close>

lemma automap_example:
  "columnMappings (autoMapColumns example_loaded) =
     [''Account_Name'' \<mapsto> FieldName ''Account Name'', ''Email'' \<mapsto> FieldName ''email'']"
  by (simp add: example_loaded_def automap_eval)

lemma automap_unmatched:
  "columnMappings (autoMapColumns example_unmatched) =
     [''first name'' \<mapsto> FieldName ''First_Name'']"
  by (simp add: example_unmatched_def automap_eval)

text \<open>
  Claim C7, at the input where the code departs from it. No field matches the column
  \<^verbatim>\<open>constructor\<close> in any of the four ways, so the mapper of the specification leaves it
  unmapped. In the code the second attempt reads \<^verbatim>\<open>vaultFieldsLower['constructor']\<close>, which
  the lookup table, a plain object, inherits from its prototype: the value is truthy,
  and the column is mapped to it. (For the columns none of whose lower-cased forms is a
  key of the prototype, \<open>autoMapColumns_follows_spec\<close> shows that the code and the
  specification agree.)
\<close>

theorem automap_maps_constructor:
  "spec_autoMap [''name__v''] ''constructor'' = None
   \<and> columnMappings (autoMapColumns example_constructor) ''constructor'' =
       Some (Inherited ''constructor'')"
proof -
  have lower: "toLowerCase ''constructor'' = ''constructor''"
    "toLowerCase ''name__v'' = ''name__v''"
    by (simp_all add: toLowerCase_def lower_char_def)
  have no_exact: "''constructor'' \<notin> set [''name__v'']"
    by simp
  have table: "vaultFieldsLower [''name__v''] = [''name__v'' \<mapsto> FieldName ''name__v'']"
    by (simp add: vaultFieldsLower_def js_set_def lower)
  have inherited: "js_get (vaultFieldsLower [''name__v'']) ''constructor'' =
      Some (Inherited ''constructor'')"
    by (simp add: table js_get_def object_prototype_keys_def)
  then have second: "lookup_truthy (vaultFieldsLower [''name__v'']) (toLowerCase ''constructor'') =
      Some (Inherited ''constructor'')"
    by (simp add: lookup_truthy_def lower)
  have "matchColumn [''name__v''] (vaultFieldsLower [''name__v'']) st ''constructor'' =
      setColumnMapping st ''constructor'' (Inherited ''constructor'')" for st
    unfolding matchColumn_def using no_exact second by simp
  then have code: "columnMappings (autoMapColumns example_constructor) ''constructor'' =
      Some (Inherited ''constructor'')"
    by (simp add: autoMapColumns_def example_constructor_def setColumnMapping_def js_set_def)
  have spec: "spec_autoMap [''name__v''] ''constructor'' = None"
    by (simp add: spec_autoMap_def spec_find_def lower)
  from spec code show ?thesis ..
qed

text \<open>
  Claim C8, as the code has it. When a file is loaded and the selected object has
  fields, \<^verbatim>\<open>autoMapColumns\<close> starts from the empty mapping: what it leaves does not depend
  on the mappings there were before, from an earlier run or from manual edits, and
  every entry belongs to a column of the file. When no file is loaded or the list of
  fields is empty, it returns at once and leaves the mappings as they were.
\<close>

theorem automap_resets_when_ready:
  "(inputFileData st = Some loaded \<and> availableFields st \<noteq> [] \<longrightarrow>
       columnMappings (autoMapColumns (st\<lparr>columnMappings := old\<rparr>)) =
         columnMappings (autoMapColumns (st\<lparr>columnMappings := Map.empty\<rparr>))
     \<and> dom (columnMappings (autoMapColumns (st\<lparr>columnMappings := old\<rparr>))) \<subseteq> set (columns loaded))
   \<and> (inputFileData st = None \<or> availableFields st = [] \<longrightarrow>
       autoMapColumns (st\<lparr>columnMappings := old\<rparr>) = st\<lparr>columnMappings := old\<rparr>)"
proof -
  have "dom (columnMappings (autoMapColumns (st\<lparr>columnMappings := old\<rparr>))) \<subseteq> set (columns loaded)"
    if "inputFileData st = Some loaded" "availableFields st \<noteq> []"
    using that autoMapColumns_ready[where st = "st\<lparr>columnMappings := old\<rparr>" and loaded = loaded]
    by (auto simp: dom_def split: if_splits)
  moreover have "columnMappings (autoMapColumns (st\<lparr>columnMappings := old\<rparr>)) =
         columnMappings (autoMapColumns (st\<lparr>columnMappings := Map.empty\<rparr>))"
    if "inputFileData st = Some loaded" "availableFields st \<noteq> []"
    using that by (simp add: autoMapColumns_def clearColumnMappings_def)
  moreover have "autoMapColumns (st\<lparr>columnMappings := old\<rparr>) = st\<lparr>columnMappings := old\<rparr>"
    if "inputFileData st = None \<or> availableFields st = []"
    using that by (auto simp: autoMapColumns_def split: option.splits)
  ultimately show ?thesis by blast
qed

theorem automap_resets_when_ready_witness:
  "columnMappings (autoMapColumns
       (example_loaded\<lparr>columnMappings := [''Stale'' \<mapsto> FieldName ''gone__v'']\<rparr>)) =
     columnMappings (autoMapColumns (example_loaded\<lparr>columnMappings := Map.empty\<rparr>))
   \<and> columnMappings (autoMapColumns
       (example_loaded\<lparr>columnMappings := [''Stale'' \<mapsto> FieldName ''gone__v'']\<rparr>)) ''Stale'' = None
   \<and> autoMapColumns (example_reselected\<lparr>columnMappings := [''Stale'' \<mapsto> FieldName ''gone__v'']\<rparr>) =
       example_reselected\<lparr>columnMappings := [''Stale'' \<mapsto> FieldName ''gone__v'']\<rparr>"
proof -
  let ?old = "[''Stale'' \<mapsto> FieldName ''gone__v'']"
  have ready: "inputFileData example_loaded =
      Some \<lparr>columns = [''Account_Name'', ''Email''], rows = []\<rparr>
    \<and> availableFields example_loaded \<noteq> []"
    by (simp add: example_loaded_def)
  note reset = automap_resets_when_ready
    [where st = example_loaded and old = ?old
       and loaded = "\<lparr>columns = [''Account_Name'', ''Email''], rows = []\<rparr>",
     THEN conjunct1, rule_format, OF ready]
  note same = reset[THEN conjunct1]
  have inside: "dom (columnMappings (autoMapColumns (example_loaded\<lparr>columnMappings := ?old\<rparr>)))
      \<subseteq> {''Account_Name'', ''Email''}"
    using reset[THEN conjunct2] by simp
  have stale: "columnMappings (autoMapColumns (example_loaded\<lparr>columnMappings := ?old\<rparr>))
      ''Stale'' = None"
  proof (rule ccontr)
    assume "columnMappings (autoMapColumns (example_loaded\<lparr>columnMappings := ?old\<rparr>))
      ''Stale'' \<noteq> None"
    then have "''Stale'' \<in> dom (columnMappings
        (autoMapColumns (example_loaded\<lparr>columnMappings := ?old\<rparr>)))"
      by (simp add: dom_def)
    with inside have "''Stale'' \<in> {''Account_Name'', ''Email''}" by (rule subsetD)
    then show False by simp
  qed
  have unready: "inputFileData example_reselected = None \<or> availableFields example_reselected = []"
    by (simp add: example_reselected_def)
  note kept = automap_resets_when_ready
    [where st = example_reselected and old = ?old, THEN conjunct2, rule_format, OF unready]
  from same stale kept show ?thesis by (intro conjI)
qed

text \<open>
  After a run on the file and the fields of \<^const>\<open>example_loaded\<close>, an object without
  fields is selected and a file with the single column \<^verbatim>\<open>Phone\<close> is loaded. A second run
  leaves the entry of the column \<^verbatim>\<open>Email\<close> of the first run in place.
\<close>

theorem automap_keeps_entries_counterexample:
  "inputFileData example_reselected = Some \<lparr>columns = [''Phone''], rows = []\<rparr>
   \<and> availableFields example_reselected = []
   \<and> columnMappings (autoMapColumns example_reselected) ''Email'' = Some (FieldName ''email'')"
proof -
  have "autoMapColumns example_reselected = example_reselected"
    by (simp add: example_reselected_def autoMapColumns_def)
  moreover have "columnMappings example_reselected = columnMappings (autoMapColumns example_loaded)"
    by (simp add: example_reselected_def)
  ultimately show ?thesis
    by (simp add: automap_example) (simp add: example_reselected_def)
qed

end
